theory Spec2Isabelle
  imports Complex_Main
begin

section \<open>Shipment progression engine of \<open>server.py\<close>\<close>

text \<open>
  The source draws random numbers, reads the clock and talks to a document store. In this
  development every random draw and every clock reading is a parameter of the function that
  makes it, and the store is a list of documents passed in and returned. Python's floats
  (the random weights, the tick's \<open>delta\<close>, \<open>time_in_step\<close>) are taken as exact rationals.
\<close>

subsection \<open>Duration Allocator: \<open>generate_step_durations\<close>\<close>

text \<open>Python's \<open>int(x)\<close> on a float truncates towards zero.\<close>

definition py_int :: "rat \<Rightarrow> int" where
  "py_int x = (if 0 \<le> x then \<lfloor>x\<rfloor> else \<lceil>x\<rceil>)"

text \<open>
  \<open>max(range(n), key=lambda i: xs[i])\<close>: the first index at which the largest value stands.
  \<open>argmax_from best i xs\<close> scans \<open>xs\<close>, whose head has index \<open>i\<close>, keeping the best
  (index, value) seen so far; a later index wins only with a strictly larger value.
\<close>

fun argmax_from :: "nat \<times> int \<Rightarrow> nat \<Rightarrow> int list \<Rightarrow> nat" where
  "argmax_from (bi, bv) i [] = bi"
| "argmax_from (bi, bv) i (x # xs) =
     (if bv < x then argmax_from (i, x) (Suc i) xs else argmax_from (bi, bv) (Suc i) xs)"

definition argmax_index :: "int list \<Rightarrow> nat" where
  "argmax_index xs = (case xs of [] \<Rightarrow> 0 | x # rest \<Rightarrow> argmax_from (0, x) 1 rest)"

text \<open>
  \<open>total_time\<close> is the draw \<open>random.randint(55, 60)\<close>, \<open>transit_prop\<close> the draw
  \<open>random.uniform(0.4, 0.5)\<close> and \<open>weights i\<close>, for \<open>i < 6\<close>, the six draws of
  \<open>random.random()\<close>.
\<close>

definition generate_step_durations :: "int \<Rightarrow> rat \<Rightarrow> (nat \<Rightarrow> rat) \<Rightarrow> int list" where
  "generate_step_durations total_time transit_prop weights =
    (let transit_time = py_int (of_int total_time * transit_prop);
         rest_time = total_time - transit_time;
         partials0 = map weights [0..<6];
         s0 = sum_list partials0;
         partials1 = (if s0 = 0 then replicate 6 1 else partials0);
         s = (if s0 = 0 then 6 else s0);
         partials2 = map (\<lambda>p. py_int (p / s * of_int rest_time)) partials1;
         diff = rest_time - sum_list partials2;
         partials = (if diff \<noteq> 0
                     then (let imax = argmax_index partials2
                           in partials2[imax := partials2 ! imax + diff])
                     else partials2);
         durations0 = map (\<lambda>i. if i < 3 then partials ! i
                                else if i = 3 then transit_time
                                else partials ! (i - 1)) [0..<7];
         durations1 = map (\<lambda>d. if d < 1 then 1 else d) durations0;
         sum_diff = total_time - sum_list durations1
     in if sum_diff > 0
        then (let imax = argmax_index durations1
              in durations1[imax := durations1 ! imax + sum_diff])
        else durations1)"

subsection \<open>Shipment documents and the store\<close>

text \<open>
  A shipment document has the fields \<open>generate_tracking_for\<close> writes. The only field that
  is ever removed from a document is \<open>on_hold\<close> (by \<open>$unset\<close>), so it alone is optional
  here: \<open>None\<close> is the absent field, which \<open>shipment.get("on_hold", False)\<close> reads as
  false. Strings are lists of code points; \<open>CHR 0xE9\<close> is the letter e with an acute
  accent. Timestamps are the strings that \<open>datetime.now().ctime()\<close> returned.
\<close>

record shipment =
  tracking :: string
  status :: string
  history :: "(string \<times> string) list"
  client :: string
  quantity :: int
  destination :: string
  creation_timestamp :: string
  current_step_index :: int
  finished :: bool
  on_hold :: "bool option"
  step_durations :: "int list"
  time_in_step :: rat
  incident_decision :: bool
  incident_checked :: bool
  archived :: bool

text \<open>
  The collection \<open>shipments_collection\<close>, in insertion order. \<open>find_one\<close> returns the first
  document with the tracking id, \<open>update_one\<close> changes the first such document and does
  nothing when there is none. A write can fail (pymongo raises): \<open>fault\<close> says whether this
  call does, and then the collection is left as it was.
\<close>

type_synonym store = "shipment list"

datatype error = IndexError | StoreFailure

fun find_one :: "string \<Rightarrow> store \<Rightarrow> shipment option" where
  "find_one t [] = None"
| "find_one t (d # ds) = (if tracking d = t then Some d else find_one t ds)"

fun update_first :: "string \<Rightarrow> (shipment \<Rightarrow> shipment) \<Rightarrow> store \<Rightarrow> store" where
  "update_first t f [] = []"
| "update_first t f (d # ds) = (if tracking d = t then f d # ds else d # update_first t f ds)"

definition update_one :: "bool \<Rightarrow> string \<Rightarrow> (shipment \<Rightarrow> shipment) \<Rightarrow> store \<Rightarrow> error + store" where
  "update_one fault t f db = (if fault then Inl StoreFailure else Inr (update_first t f db))"

definition insert_one :: "shipment \<Rightarrow> store \<Rightarrow> store" where
  "insert_one d db = db @ [d]"

text \<open>
  Python's \<open>xs[i]\<close>. An index from \<open>-len(xs)\<close> to \<open>-1\<close> is read from the end of the list;
  outside \<open>-len(xs) .. len(xs) - 1\<close> the read raises \<open>IndexError\<close>.
\<close>

definition py_index :: "'a list \<Rightarrow> int \<Rightarrow> error + 'a" where
  "py_index xs i =
     (if 0 \<le> i \<and> i < int (length xs) then Inr (xs ! nat i)
      else if i < 0 \<and> - int (length xs) \<le> i then Inr (xs ! nat (int (length xs) + i))
      else Inl IndexError)"

text \<open>
  Python's \<open>str(n)\<close> on an integer: the decimal digits, most significant first
  (\<open>str_digits\<close>, for \<open>n\<close> from 0 on), after a minus sign when \<open>n\<close> is negative.
\<close>

function str_digits :: "int \<Rightarrow> string" where
  "str_digits n = (if n < 10 then [char_of (48 + n)]
                   else str_digits (n div 10) @ [char_of (48 + n mod 10)])"
  by pat_completeness auto
termination
  by (relation "measure nat") auto

declare str_digits.simps [simp del]

definition str_int :: "int \<Rightarrow> string" where
  "str_int i = (if i < 0 then CHR ''-'' # str_digits (- i) else str_digits i)"

subsection \<open>Status labels\<close>

definition e_acute :: string where
  "e_acute = [CHR 0xE9]"

definition statuses :: "string list" where
  "statuses =
    [''Commande confirm'' @ e_acute @ ''e'',
     ''Colis pr'' @ e_acute @ ''par'' @ e_acute,
     ''Pris en charge par le transporteur'',
     ''En transit'',
     ''Arriv'' @ e_acute @ '' au centre de distribution'',
     ''En cours de livraison'',
     ''Livr'' @ e_acute]"

definition status_cancelled :: string where
  "status_cancelled = ''Livraison annul'' @ e_acute @ ''e''"

definition status_incident :: string where
  "status_incident = ''Incident signal'' @ e_acute"

text \<open>The f-string of the incident status, with its plural.\<close>

definition incident_status :: "int \<Rightarrow> string" where
  "incident_status days =
     status_incident @ '' : Retard estim'' @ e_acute @ '' : '' @ str_int days @ '' jour''
       @ (if days > 1 then ''s'' else [])"

subsection \<open>Incident Resolver: \<open>handle_incident\<close>\<close>

text \<open>
  \<open>draw\<close> is the resolver's \<open>random.randint(1, 100)\<close>, \<open>now\<close> its clock reading. The sleep
  has no effect on the store. The result is the collection after the call; a failed write
  ends the resolver's thread with the error.
\<close>

definition handle_incident :: "string \<Rightarrow> int \<Rightarrow> int \<Rightarrow> string \<Rightarrow> bool \<Rightarrow> store \<Rightarrow> error + store" where
  "handle_incident trk days draw now fault db =
    (let chance0 = 10 + (days - 1) * 5;
         chance = min chance0 100;
         outcome = (draw \<le> chance)
     in case find_one trk db of
          None \<Rightarrow> Inr db
        | Some shipment \<Rightarrow>
            if outcome
            then update_one fault trk
                   (\<lambda>d. d\<lparr>status := status_cancelled, finished := True,
                           history := history d @ [(status_cancelled, now)]\<rparr>) db
            else update_one fault trk
                   (\<lambda>d. d\<lparr>status := ''En transit'',
                           history := history d @ [(''En transit'', now)],
                           on_hold := None\<rparr>) db)"

subsection \<open>Progression Scheduler: the body of \<open>simulation_loop\<close>\<close>

text \<open>
  One iteration of \<open>for shipment in shipments\<close>: \<open>shipment\<close> is the document as the tick
  read it, \<open>db\<close> the collection now. \<open>days\<close> is the draw \<open>random.randint(1, 9)\<close> (used only
  when an incident is declared), \<open>now\<close> the clock reading, \<open>fault\<close> whether the write of this
  iteration fails. The result is the collection and, when a resolver thread is started,
  its arguments.
\<close>

definition process_shipment ::
  "rat \<Rightarrow> int \<Rightarrow> string \<Rightarrow> bool \<Rightarrow> shipment \<Rightarrow> store \<Rightarrow> error + (store \<times> (string \<times> int) option)" where
  "process_shipment delta days now fault shipment db =
    (let trk = tracking shipment;
         idx = current_step_index shipment
     in if idx \<ge> int (length statuses) - 1
        then (case update_one fault trk (\<lambda>d. d\<lparr>finished := True\<rparr>) db of
                Inl e \<Rightarrow> Inl e
              | Inr db' \<Rightarrow> Inr (db', None))
        else if on_hold shipment = Some True
        then Inr (db, None)
        else
          (let tis = time_in_step shipment + delta
           in case py_index (step_durations shipment) idx of
                Inl e \<Rightarrow> Inl e
              | Inr dur_step \<Rightarrow>
                  if idx = 3 \<and> \<not> incident_checked shipment \<and> incident_decision shipment
                  then (case update_one fault trk
                               (\<lambda>d. d\<lparr>incident_checked := True,
                                       status := incident_status days,
                                       on_hold := Some True,
                                       history := history d @ [(status_incident, now)]\<rparr>) db of
                          Inl e \<Rightarrow> Inl e
                        | Inr db' \<Rightarrow> Inr (db', Some (trk, days)))
                  else if tis \<ge> of_int dur_step
                  then (let new_idx = idx + 1
                        in case py_index statuses new_idx of
                             Inl e \<Rightarrow> Inl e
                           | Inr new_status \<Rightarrow>
                               (case update_one fault trk
                                      (\<lambda>d. (if new_idx \<ge> int (length statuses) - 1
                                             then d\<lparr>finished := True\<rparr> else d)
                                            \<lparr>current_step_index := new_idx,
                                             status := new_status,
                                             time_in_step := 0,
                                             history := history d @ [(new_status, now)]\<rparr>) db of
                                  Inl e \<Rightarrow> Inl e
                                | Inr db' \<Rightarrow> Inr (db', None)))
                  else (case update_one fault trk (\<lambda>d. d\<lparr>time_in_step := tis\<rparr>) db of
                          Inl e \<Rightarrow> Inl e
                        | Inr db' \<Rightarrow> Inr (db', None))))"

text \<open>
  One tick: \<open>find({"finished": False, "archived": False})\<close>, then the \<open>for\<close> loop over the
  documents read. \<open>env i\<close> holds the draw, the clock reading and the write fault of the
  \<open>i\<close>-th iteration. There is no \<open>try\<close> in the loop: an exception leaves it, and the result
  keeps the error, the collection as the iterations before it left it, and the resolver
  threads started so far.
\<close>

record tick_env =
  o_days :: int
  o_now :: string
  o_fault :: bool

definition find_active :: "store \<Rightarrow> shipment list" where
  "find_active db = filter (\<lambda>d. finished d = False \<and> archived d = False) db"

fun process_all ::
  "rat \<Rightarrow> (nat \<Rightarrow> tick_env) \<Rightarrow> nat \<Rightarrow> shipment list \<Rightarrow> store \<Rightarrow> (string \<times> int) list
     \<Rightarrow> error option \<times> store \<times> (string \<times> int) list" where
  "process_all delta env i [] db threads = (None, db, threads)"
| "process_all delta env i (shipment # rest) db threads =
     (case process_shipment delta (o_days (env i)) (o_now (env i)) (o_fault (env i)) shipment db of
        Inl e \<Rightarrow> (Some e, db, threads)
      | Inr (db', spawn) \<Rightarrow>
          process_all delta env (Suc i) rest db'
            (threads @ (case spawn of None \<Rightarrow> [] | Some a \<Rightarrow> [a])))"

definition simulation_tick ::
  "rat \<Rightarrow> (nat \<Rightarrow> tick_env) \<Rightarrow> store \<Rightarrow> error option \<times> store \<times> (string \<times> int) list" where
  "simulation_tick delta env db = process_all delta env 0 (find_active db) db []"

text \<open>
  The \<open>while\<close> loop for \<open>n\<close> ticks: tick \<open>k\<close> has the elapsed time \<open>deltas k\<close> and the
  draws \<open>envs k\<close>. An exception in a tick ends the loop (and its thread) for good.
\<close>

fun simulation_loop :: "nat \<Rightarrow> (nat \<Rightarrow> rat) \<Rightarrow> (nat \<Rightarrow> nat \<Rightarrow> tick_env) \<Rightarrow> store \<Rightarrow> error + store" where
  "simulation_loop 0 deltas envs db = Inr db"
| "simulation_loop (Suc n) deltas envs db =
     (case simulation_loop n deltas envs db of
        Inl e \<Rightarrow> Inl e
      | Inr db' \<Rightarrow>
          (case simulation_tick (deltas n) (envs n) db' of
             (Some e, _, _) \<Rightarrow> Inl e
           | (None, db2, _) \<Rightarrow> Inr db2))"

subsection \<open>Shipment Factory and the archive endpoint\<close>

text \<open>The random draws of \<open>generate_tracking_for\<close> and of the allocator it calls.\<close>

record factory_draws =
  tracking_draw :: int
  total_time_draw :: int
  transit_prop_draw :: rat
  weight_draws :: "nat \<Rightarrow> rat"
  incident_draw :: int

definition generate_tracking_for ::
  "string \<Rightarrow> int \<Rightarrow> string \<Rightarrow> factory_draws \<Rightarrow> string \<Rightarrow> bool \<Rightarrow> store \<Rightarrow> error + (string \<times> store)" where
  "generate_tracking_for username qty dest draws now fault db =
    (let trk = str_int (tracking_draw draws);
         durations = generate_step_durations (total_time_draw draws) (transit_prop_draw draws)
                       (weight_draws draws);
         incident = (incident_draw draws \<le> 15);
         shipment = \<lparr>tracking = trk,
                     status = ''Commande confirm'' @ e_acute @ ''e'',
                     history = [(''Commande confirm'' @ e_acute @ ''e'', now)],
                     client = username,
                     quantity = qty,
                     destination = dest,
                     creation_timestamp = now,
                     current_step_index = 0,
                     finished = False,
                     on_hold = Some False,
                     step_durations = durations,
                     time_in_step = 0,
                     incident_decision = incident,
                     incident_checked = False,
                     archived = False\<rparr>
     in if fault then Inl StoreFailure else Inr (trk, insert_one shipment db))"

text \<open>The archive route: the HTTP status and the collection after the call.\<close>

definition archive_shipment :: "string \<Rightarrow> bool \<Rightarrow> store \<Rightarrow> error + (nat \<times> store)" where
  "archive_shipment trk fault db =
    (case find_one trk db of
       None \<Rightarrow> Inr (404, db)
     | Some shipment \<Rightarrow>
         (case update_one fault trk (\<lambda>d. d\<lparr>archived := True\<rparr>) db of
            Inl e \<Rightarrow> Inl e
          | Inr db' \<Rightarrow> Inr (200, db')))"

subsection \<open>The threads together\<close>

text \<open>
  The scheduler thread, the resolver threads and the request handlers run concurrently on
  the one collection. Each call of the store (\<open>find\<close>, \<open>find_one\<close>, \<open>update_one\<close>,
  \<open>insert_one\<close>) is atomic; a run is a sequence of events, each one such step of one thread:
  \<^item> \<open>TickRead delta\<close>: the scheduler finished its \<open>for\<close> loop, slept, and reads the active
    shipments; they stay in \<open>sys_snapshot\<close> until their iteration comes;
  \<^item> \<open>TickStep days now fault\<close>: the next iteration of the \<open>for\<close> loop, on the document as
    it was read and on the collection as it is now (\<open>simulation_loop\<close> takes no lock);
  \<^item> \<open>Resolve k draw now fault\<close>: the \<open>k\<close>-th sleeping resolver wakes and runs its locked
    section. No document is ever deleted and the resolver's write does not depend on what
    its \<open>find_one\<close> read, so the section is one step, taken at its write;
  \<^item> \<open>Create\<close> and \<open>Archive\<close>: the two routes that write to the collection.
  An event that cannot happen in the state (no iteration left, no such resolver, the
  scheduler thread dead) leaves the state as it is.
\<close>

record system =
  sys_db :: store
  sys_snapshot :: "shipment list"
  sys_delta :: rat
  sys_running :: bool
  sys_resolvers :: "(string \<times> int) list"
  sys_started :: "(string \<times> int) list"

datatype event =
    Create string int string factory_draws string bool
  | Archive string bool
  | TickRead rat
  | TickStep int string bool
  | Resolve nat int string bool

fun step :: "event \<Rightarrow> system \<Rightarrow> system" where
  "step (Create username qty dest draws now fault) s =
     (case generate_tracking_for username qty dest draws now fault (sys_db s) of
        Inl e \<Rightarrow> s
      | Inr (trk, db') \<Rightarrow> s\<lparr>sys_db := db'\<rparr>)"
| "step (Archive trk fault) s =
     (case archive_shipment trk fault (sys_db s) of
        Inl e \<Rightarrow> s
      | Inr (code, db') \<Rightarrow> s\<lparr>sys_db := db'\<rparr>)"
| "step (TickRead d) s =
     (if sys_running s \<and> sys_snapshot s = []
      then s\<lparr>sys_snapshot := find_active (sys_db s), sys_delta := d\<rparr>
      else s)"
| "step (TickStep days now fault) s =
     (if \<not> sys_running s then s
      else case sys_snapshot s of
             [] \<Rightarrow> s
           | shipment # rest \<Rightarrow>
               (case process_shipment (sys_delta s) days now fault shipment (sys_db s) of
                  Inl e \<Rightarrow> s\<lparr>sys_snapshot := [], sys_running := False\<rparr>
                | Inr (db', spawn) \<Rightarrow>
                    s\<lparr>sys_db := db', sys_snapshot := rest,
                      sys_resolvers := sys_resolvers s @ (case spawn of None \<Rightarrow> [] | Some a \<Rightarrow> [a]),
                      sys_started := sys_started s @ (case spawn of None \<Rightarrow> [] | Some a \<Rightarrow> [a])\<rparr>))"
| "step (Resolve k draw now fault) s =
     (if k < length (sys_resolvers s)
      then (let r = sys_resolvers s ! k;
                left = take k (sys_resolvers s) @ drop (Suc k) (sys_resolvers s)
            in case handle_incident (fst r) (snd r) draw now fault (sys_db s) of
                 Inl e \<Rightarrow> s\<lparr>sys_resolvers := left\<rparr>
               | Inr db' \<Rightarrow> s\<lparr>sys_db := db', sys_resolvers := left\<rparr>)
      else s)"

definition run :: "event list \<Rightarrow> system \<Rightarrow> system" where
  "run evs s = foldl (\<lambda>s e. step e s) s evs"

text \<open>The process starts on the collection \<open>db0\<close>: the scheduler runs, no resolver does.\<close>

definition init :: "store \<Rightarrow> system" where
  "init db0 = \<lparr>sys_db = db0, sys_snapshot = [], sys_delta = 0, sys_running = True,
               sys_resolvers = [], sys_started = []\<rparr>"

subsection \<open>Predicates and sample data of the properties\<close>

text \<open>
  \<open>flags_kept db db'\<close>: \<open>db'\<close> still has every document of \<open>db\<close>, at its place, and no
  document lost its \<open>finished\<close> or its \<open>archived\<close> flag.
\<close>

definition doc_flags_kept :: "shipment \<Rightarrow> shipment \<Rightarrow> bool" where
  "doc_flags_kept d d' = ((finished d \<longrightarrow> finished d') \<and> (archived d \<longrightarrow> archived d'))"

definition flags_kept :: "store \<Rightarrow> store \<Rightarrow> bool" where
  "flags_kept db db' =
     (length db \<le> length db' \<and> (\<forall>i < length db. doc_flags_kept (db ! i) (db' ! i)))"

text \<open>A shipment in transit whose incident was declared, with a delay of five days.\<close>

definition held_shipment :: shipment where
  "held_shipment =
     \<lparr>tracking = ''12345678'',
      status = incident_status 5,
      history = [(''Commande confirm'' @ e_acute @ ''e'', ''Mon Jan  6 10:00:00 2025''),
                 (''Colis pr'' @ e_acute @ ''par'' @ e_acute, ''Mon Jan  6 10:00:06 2025''),
                 (''Pris en charge par le transporteur'', ''Mon Jan  6 10:00:11 2025''),
                 (''En transit'', ''Mon Jan  6 10:00:16 2025''),
                 (status_incident, ''Mon Jan  6 10:00:17 2025'')],
      client = ''alice'',
      quantity = 2,
      destination = ''Lyon'',
      creation_timestamp = ''Mon Jan  6 10:00:00 2025'',
      current_step_index = 3,
      finished = False,
      on_hold = Some True,
      step_durations = [6, 5, 5, 24, 5, 5, 5],
      time_in_step = 0,
      incident_decision = True,
      incident_checked = True,
      archived = False\<rparr>"

text \<open>
  The invariant of a run. \<open>agrees sh d\<close>: the document \<open>d\<close> of the collection still has
  what the scheduler will use of the document \<open>sh\<close> it read, and is on hold only if \<open>sh\<close>
  was. \<open>held d\<close>: the state in which the scheduler leaves a shipment whose incident it
  declared. \<open>inv\<close>: the documents read by the tick and not yet processed have distinct
  tracking ids and agree with the collection; the sleeping resolvers are for distinct
  shipments, each one held; the resolvers ever started are for distinct shipments, each one
  with \<open>incident_checked\<close> set.
\<close>

definition agrees :: "shipment \<Rightarrow> shipment \<Rightarrow> bool" where
  "agrees sh d =
     (current_step_index d = current_step_index sh \<and> time_in_step d = time_in_step sh
      \<and> step_durations d = step_durations sh
      \<and> incident_checked d = incident_checked sh \<and> incident_decision d = incident_decision sh
      \<and> (on_hold d = Some True \<longrightarrow> on_hold sh = Some True))"

definition held :: "shipment \<Rightarrow> bool" where
  "held d = (on_hold d = Some True \<and> current_step_index d = 3 \<and> incident_checked d)"

definition inv :: "system \<Rightarrow> bool" where
  "inv s =
     (distinct (map tracking (sys_snapshot s))
      \<and> (\<forall>sh \<in> set (sys_snapshot s).
            \<exists>d. find_one (tracking sh) (sys_db s) = Some d \<and> agrees sh d)
      \<and> distinct (map fst (sys_resolvers s))
      \<and> (\<forall>r \<in> set (sys_resolvers s). \<exists>d. find_one (fst r) (sys_db s) = Some d \<and> held d)
      \<and> distinct (map fst (sys_started s))
      \<and> (\<forall>r \<in> set (sys_started s).
            \<exists>d. find_one (fst r) (sys_db s) = Some d \<and> incident_checked d))"

text \<open>A write that leaves alone every field the invariant speaks of.\<close>

definition benign :: "shipment \<Rightarrow> shipment \<Rightarrow> bool" where
  "benign d d' =
     (tracking d' = tracking d \<and> current_step_index d' = current_step_index d
      \<and> time_in_step d' = time_in_step d \<and> step_durations d' = step_durations d
      \<and> incident_checked d' = incident_checked d \<and> incident_decision d' = incident_decision d
      \<and> on_hold d' = on_hold d)"

text \<open>
  A shipment that just entered the transit stage and is eligible for an incident, and a
  run on it: a tick declares the incident and starts the resolver, the next tick reads the
  shipment while it is on hold, the resolver resumes it, and the tick's iteration follows.
\<close>

definition transit_shipment :: shipment where
  "transit_shipment =
     \<lparr>tracking = ''12345678'',
      status = ''En transit'',
      history = [(''Commande confirm'' @ e_acute @ ''e'', ''Mon Jan  6 10:00:00 2025''),
                 (''Colis pr'' @ e_acute @ ''par'' @ e_acute, ''Mon Jan  6 10:00:06 2025''),
                 (''Pris en charge par le transporteur'', ''Mon Jan  6 10:00:11 2025''),
                 (''En transit'', ''Mon Jan  6 10:00:16 2025'')],
      client = ''alice'',
      quantity = 2,
      destination = ''Lyon'',
      creation_timestamp = ''Mon Jan  6 10:00:00 2025'',
      current_step_index = 3,
      finished = False,
      on_hold = Some False,
      step_durations = [6, 5, 5, 24, 5, 5, 5],
      time_in_step = 0,
      incident_decision = True,
      incident_checked = False,
      archived = False\<rparr>"

definition incident_run :: "event list" where
  "incident_run =
     [TickRead 1,
      TickStep 5 ''Mon Jan  6 10:00:17 2025'' False,
      TickRead 1,
      Resolve 0 80 ''Mon Jan  6 10:00:42 2025'' False,
      TickStep 3 ''Mon Jan  6 10:00:43 2025'' False]"

text \<open>
  \<open>doc_ok\<close>: what the scheduler keeps true of \<open>time_in_step\<close>. A shipment that waits in
  transit for its incident to be declared has not accumulated time, and neither has a
  shipment on hold.
\<close>

definition doc_ok :: "shipment \<Rightarrow> bool" where
  "doc_ok d =
     ((current_step_index d = 3 \<and> \<not> incident_checked d \<and> incident_decision d
         \<longrightarrow> time_in_step d = 0)
      \<and> (on_hold d = Some True \<longrightarrow> time_in_step d = 0))"

definition db_timed :: "store \<Rightarrow> bool" where
  "db_timed db = (\<forall>t d. find_one t db = Some d \<longrightarrow> doc_ok d)"

text \<open>A run in which the shipment is archived while its resolver sleeps.\<close>

definition archive_run :: "event list" where
  "archive_run =
     [TickRead 1,
      TickStep 5 ''Mon Jan  6 10:00:17 2025'' False,
      Archive ''12345678'' False]"

text \<open>
  The course of a shipment without incident under ticks of one time unit. \<open>stage_start ds j\<close>
  is the time at which stage \<open>j\<close> begins; \<open>on_track ds m d\<close> says where the document \<open>d\<close>
  stands after \<open>m\<close> ticks: in the stage \<open>j\<close> whose interval holds \<open>m\<close>, with the time spent
  there, the first \<open>j + 1\<close> status labels as its history, and finished exactly at stage 6.
\<close>

definition stage_start :: "int list \<Rightarrow> nat \<Rightarrow> int" where
  "stage_start ds j = sum_list (take j ds)"


text \<open>
  A shipment as the factory creates it, with the draws: total 55, transit proportion 0.45,
  weights 0.6 five times and 0.15, no incident. Its durations are 10, 5, 5, 24, 5, 5, 1.
\<close>

definition sample_draws :: factory_draws where
  "sample_draws =
     \<lparr>tracking_draw = 12345678, total_time_draw = 55, transit_prop_draw = 9/20,
      weight_draws = (\<lambda>i. if i = 5 then 3/20 else 3/5), incident_draw = 50\<rparr>"





text \<open>
  A new order for the tick's failure cases, next to \<open>transit_shipment\<close>; and the draws of a
  tick whose every write succeeds, whose first write fails, whose second write fails.
\<close>

definition order_shipment :: shipment where
  "order_shipment =
     \<lparr>tracking = ''87654321'',
      status = ''Commande confirm'' @ e_acute @ ''e'',
      history = [(''Commande confirm'' @ e_acute @ ''e'', ''Mon Jan  6 10:00:15 2025'')],
      client = ''bob'',
      quantity = 3,
      destination = ''Paris'',
      creation_timestamp = ''Mon Jan  6 10:00:15 2025'',
      current_step_index = 0,
      finished = False,
      on_hold = Some False,
      step_durations = [10, 5, 5, 24, 5, 5, 1],
      time_in_step = 0,
      incident_decision = False,
      incident_checked = False,
      archived = False\<rparr>"

definition sound_env :: "nat \<Rightarrow> tick_env" where
  "sound_env i = \<lparr>o_days = 5, o_now = ''Mon Jan  6 10:00:17 2025'', o_fault = False\<rparr>"

definition first_fails_env :: "nat \<Rightarrow> tick_env" where
  "first_fails_env i = \<lparr>o_days = 5, o_now = ''Mon Jan  6 10:00:17 2025'', o_fault = (i = 0)\<rparr>"

definition second_fails_env :: "nat \<Rightarrow> tick_env" where
  "second_fails_env i = \<lparr>o_days = 5, o_now = ''Mon Jan  6 10:00:17 2025'', o_fault = (i = 1)\<rparr>"

text \<open>
  The trigger condition of the incident, and what a run keeps true when several documents
  carry one tracking id (line 195 draws the id and checks nothing). \<open>update_one\<close> writes the
  first document with the id, so a document behind another with its id (a shadow) stays as
  it was inserted. \<open>shadows_idle\<close>: no shadow satisfies the trigger condition. \<open>spawn_inv\<close>:
  besides, the documents read by the tick that satisfy it have distinct ids, the first
  stored document of each still has \<open>incident_checked\<close> unset, and the resolvers ever
  started are for distinct ids, each with \<open>incident_checked\<close> set on the first document.
\<close>

definition triggers :: "shipment \<Rightarrow> bool" where
  "triggers d = (current_step_index d = 3 \<and> \<not> incident_checked d \<and> incident_decision d)"

fun shadows_idle :: "store \<Rightarrow> bool" where
  "shadows_idle [] = True"
| "shadows_idle (d # ds) =
     ((\<forall>x \<in> set ds. tracking x = tracking d \<longrightarrow> \<not> triggers x) \<and> shadows_idle ds)"

definition spawn_inv :: "system \<Rightarrow> bool" where
  "spawn_inv s =
     (shadows_idle (sys_db s)
      \<and> distinct (map tracking (filter triggers (sys_snapshot s)))
      \<and> (\<forall>sh \<in> set (sys_snapshot s). triggers sh \<longrightarrow>
            (\<exists>d. find_one (tracking sh) (sys_db s) = Some d \<and> \<not> incident_checked d))
      \<and> distinct (map fst (sys_started s))
      \<and> (\<forall>r \<in> set (sys_started s).
            \<exists>d. find_one (fst r) (sys_db s) = Some d \<and> incident_checked d))"

text \<open>
  Two orders that draw the same tracking id. The first is eligible for an incident (its
  durations are 10, 5, 5, 24, 5, 5, 1); after 21 ticks of one time unit it is in transit and
  on hold, its resolver sleeping. Then the second order is placed, a tick follows (two
  documents read, two iterations), and the resolver resumes the shipment.
\<close>

definition incident_draws :: factory_draws where
  "incident_draws = sample_draws\<lparr>incident_draw := 10\<rparr>"

definition unit_tick :: "nat \<Rightarrow> event list" where
  "unit_tick k = TickRead 1 # replicate k (TickStep 5 ''Mon Jan  6 10:01:00 2025'' False)"

definition first_order_run :: "event list" where
  "first_order_run =
     Create ''alice'' 2 ''Lyon'' incident_draws ''Mon Jan  6 10:00:00 2025'' False
       # concat (replicate 21 (unit_tick 1))"

definition second_order_run :: "event list" where
  "second_order_run =
     first_order_run @ [Create ''bob'' 3 ''Paris'' sample_draws ''Mon Jan  6 10:00:30 2025'' False]"

definition collision_run :: "event list" where
  "collision_run = second_order_run @ unit_tick 2"

definition collision_resume_run :: "event list" where
  "collision_resume_run = collision_run @ [Resolve 0 80 ''Mon Jan  6 10:01:30 2025'' False]"

text \<open>
  The ticks of a run. \<open>ticks_started evs s\<close> counts the reads of the scheduler that take
  place when the events \<open>evs\<close> run from the state \<open>s\<close> (a \<open>TickRead\<close> while the scheduler is
  alive and its \<open>for\<close> loop is over); \<open>ticks_completed\<close> leaves out the tick whose \<open>for\<close> loop is
  still under way at the end. \<open>deltas_ge1\<close>: every tick of the events has an elapsed time of
  at least one time unit, as the loop's \<open>time.sleep(1)\<close> makes it.
\<close>

fun tick_starts :: "event \<Rightarrow> system \<Rightarrow> bool" where
  "tick_starts (TickRead d) s = (sys_running s \<and> sys_snapshot s = [])"
| "tick_starts (Create username qty dest draws now fault) s = False"
| "tick_starts (Archive trk fault) s = False"
| "tick_starts (TickStep days now fault) s = False"
| "tick_starts (Resolve k draw now fault) s = False"

fun ticks_started :: "event list \<Rightarrow> system \<Rightarrow> nat" where
  "ticks_started [] s = 0"
| "ticks_started (e # es) s = (if tick_starts e s then 1 else 0) + ticks_started es (step e s)"

definition ticks_completed :: "event list \<Rightarrow> system \<Rightarrow> nat" where
  "ticks_completed evs s =
     ticks_started evs s - (if sys_snapshot (run evs s) = [] then 0 else 1)"

fun delta_ge1 :: "event \<Rightarrow> bool" where
  "delta_ge1 (TickRead d) = (1 \<le> d)"
| "delta_ge1 (Create username qty dest draws now fault) = True"
| "delta_ge1 (Archive trk fault) = True"
| "delta_ge1 (TickStep days now fault) = True"
| "delta_ge1 (Resolve k draw now fault) = True"

definition deltas_ge1 :: "event list \<Rightarrow> bool" where
  "deltas_ge1 evs = list_all delta_ge1 evs"

text \<open>
  Where a shipment without incident stands. \<open>in_stage ds j d\<close>: the document is at stage \<open>j\<close>
  with the first \<open>j + 1\<close> status labels as its history, finished exactly at stage 6, not on
  hold. \<open>progressing trk ds r s\<close>, for the state \<open>s\<close> reached when \<open>r\<close> ticks have started since
  the shipment \<open>trk\<close> was created: the shipment is archived, or the scheduler is dead, or the
  shipment is in a stage \<open>j\<close> and, below stage 6, its \<open>time_in_step\<close> is less than the
  duration of the stage and, added to the durations of the stages before, at least the
  number of iterations it has had (the ticks started, less the one whose iteration on it is
  still to come).
\<close>

definition in_stage :: "int list \<Rightarrow> nat \<Rightarrow> shipment \<Rightarrow> bool" where
  "in_stage ds j d =
     (current_step_index d = int j \<and> map fst (history d) = take (Suc j) statuses
      \<and> finished d = (j = 6) \<and> step_durations d = ds \<and> \<not> incident_decision d
      \<and> on_hold d \<noteq> Some True)"

definition pending :: "string \<Rightarrow> system \<Rightarrow> bool" where
  "pending trk s = (trk \<in> tracking ` set (sys_snapshot s))"

definition progressing :: "string \<Rightarrow> int list \<Rightarrow> nat \<Rightarrow> system \<Rightarrow> bool" where
  "progressing trk ds r s =
     (\<exists>d. find_one trk (sys_db s) = Some d
        \<and> (archived d \<or> \<not> sys_running s
            \<or> ((pending trk s \<longrightarrow> 1 \<le> sys_delta s \<and> 1 \<le> r)
               \<and> (\<forall>sh \<in> set (sys_snapshot s). tracking sh = trk \<longrightarrow> on_hold sh \<noteq> Some True)
               \<and> (\<exists>j \<le> 6. in_stage ds j d
                     \<and> (j < 6 \<longrightarrow> 0 \<le> time_in_step d \<and> time_in_step d < of_int (ds ! j)
                           \<and> of_nat (r - (if pending trk s then 1 else 0))
                                \<le> of_int (stage_start ds j) + time_in_step d)))))"

text \<open>
  Runs from the empty collection on the order of \<open>sample_draws\<close> (no incident, durations
  10, 5, 5, 24, 5, 5, 1, sum 55): 55 ticks of 1.1 time units; the order archived at once and
  55 ticks of one time unit; a second order with the same tracking id and 55 ticks of one
  time unit.
\<close>

definition sample_order :: event where
  "sample_order = Create ''bob'' 3 ''Paris'' sample_draws ''Mon Jan  6 10:00:00 2025'' False"

definition slow_tick :: "nat \<Rightarrow> event list" where
  "slow_tick k = TickRead (11/10) # replicate k (TickStep 5 ''Mon Jan  6 10:01:00 2025'' False)"

definition delivery_run :: "event list" where
  "delivery_run = concat (replicate 55 (slow_tick 1))"

definition archived_run :: "event list" where
  "archived_run = sample_order # Archive ''12345678'' False # concat (replicate 55 (unit_tick 1))"

definition twin_run :: "event list" where
  "twin_run = sample_order # sample_order # concat (replicate 55 (unit_tick 2))"

section \<open>Properties\<close>

subsection \<open>The store\<close>

lemma length_update_first [simp]: "length (update_first t f db) = length db"
  by (induction db) auto

lemma map_field_update_first:
  "(\<And>d. g (f d) = g d) \<Longrightarrow> map g (update_first t f db) = map g db"
  by (induction db) auto

lemma find_one_update_first_same:
  "(\<And>d. tracking (f d) = tracking d) \<Longrightarrow>
     find_one t (update_first t f db) = map_option f (find_one t db)"
  by (induction db) auto

lemma find_one_update_first_other:
  "(\<And>d. tracking (f d) = tracking d) \<Longrightarrow> t \<noteq> u \<Longrightarrow>
     find_one t (update_first u f db) = find_one t db"
  by (induction db) auto

lemma update_first_absent: "find_one t db = None \<Longrightarrow> update_first t f db = db"
  by (induction db) (auto split: if_splits)

lemma find_one_tracking: "find_one t db = Some d \<Longrightarrow> tracking d = t"
  by (induction db) (auto split: if_splits)

lemma find_one_mem: "find_one t db = Some d \<Longrightarrow> d \<in> set db"
  by (induction db) (auto split: if_splits)

lemma find_one_None_iff: "find_one t db = None \<longleftrightarrow> t \<notin> tracking ` set db"
  by (induction db) auto

lemma find_one_distinct:
  "distinct (map tracking db) \<Longrightarrow> d \<in> set db \<Longrightarrow> find_one (tracking d) db = Some d"
  by (induction db) (auto simp: rev_image_eqI)

lemma find_one_append:
  "find_one t (db @ xs) = (case find_one t db of Some d \<Rightarrow> Some d | None \<Rightarrow> find_one t xs)"
  by (induction db) auto

lemma run_snoc: "run (evs @ [e]) s = step e (run evs s)"
  by (simp add: run_def)

lemma run_Nil: "run [] s = s"
  by (simp add: run_def)

subsection \<open>Duration Allocator\<close>




text \<open>
  Claim C1. The allocator is to return seven entries, each at least 1, whose sum is the drawn
  total. The seven entries and the lower bound hold (the two lemmas above); the sum does
  not: with the total 55, the transit proportion 0.45 and the weights 0.01, 0.5, 0.5, 0.5,
  0.5, 0.5 the first share rounds to 0 and is raised to 1, the second pass only corrects a
  deficit (\<open>sum_diff > 0\<close>), and the durations returned sum to 56.
\<close>

theorem allocator_sum_exceeds_total:
  "generate_step_durations 55 (9/20) (\<lambda>i. if i = 0 then 1/100 else 1/2) = [1, 7, 6, 24, 6, 6, 6]
   \<and> sum_list (generate_step_durations 55 (9/20) (\<lambda>i. if i = 0 then 1/100 else 1/2)) = 56"
  by code_simp

subsection \<open>Incident Resolver\<close>

lemma status_cancelled_neq: "status_cancelled \<noteq> ''En transit''"
  by (simp add: status_cancelled_def)

text \<open>
  Claim C3. For an incident of \<open>days\<close> in 1..9 on a shipment that exists, the resolver's
  chance is \<open>min (10 + (days - 1) * 5) 100\<close> (which is \<open>5 * days + 5\<close> there), and the shipment
  ends cancelled exactly when the draw is at most the chance, and back in transit
  otherwise. For five days the chance is 30: a draw of 20 cancels, a draw of 80 resumes.
\<close>

theorem resolver_outcome:
  assumes "1 \<le> days" and "days \<le> 9" and "find_one trk db = Some sh"
  shows "\<exists>db' sh'. handle_incident trk days draw now False db = Inr db'
           \<and> find_one trk db' = Some sh'
           \<and> min (10 + (days - 1) * 5) 100 = 5 * days + 5
           \<and> (status sh' = status_cancelled \<longleftrightarrow> draw \<le> min (10 + (days - 1) * 5) 100)
           \<and> (status sh' = ''En transit'' \<longleftrightarrow> \<not> draw \<le> min (10 + (days - 1) * 5) 100)
           \<and> (days = 5 \<and> draw = 20 \<longrightarrow> status sh' = status_cancelled \<and> finished sh')
           \<and> (days = 5 \<and> draw = 80 \<longrightarrow> status sh' = ''En transit'' \<and> on_hold sh' = None)"
proof (cases "draw \<le> min (10 + (days - 1) * 5) 100")
  case True
  then show ?thesis
    using assms status_cancelled_neq
    by (simp add: handle_incident_def update_one_def Let_def find_one_update_first_same)
next
  case False
  then show ?thesis
    using assms status_cancelled_neq
    by (simp add: handle_incident_def update_one_def Let_def find_one_update_first_same)
qed

theorem resolver_outcome_witness:
  "(1::int) \<le> 5 \<and> (5::int) \<le> 9
   \<and> find_one ''12345678'' [held_shipment] = Some held_shipment
   \<and> (\<exists>db' sh'. handle_incident ''12345678'' 5 20 ''Mon Jan  6 10:00:42 2025'' False [held_shipment] = Inr db'
          \<and> find_one ''12345678'' db' = Some sh'
          \<and> status sh' = status_cancelled \<and> finished sh')"
proof -
  have h: "find_one ''12345678'' [held_shipment] = Some held_shipment"
    by (simp add: held_shipment_def)
  have "(1::int) \<le> 5" and "(5::int) \<le> 9" by simp_all
  from resolver_outcome [OF this h, of 20 "''Mon Jan  6 10:00:42 2025''"]
  show ?thesis using h by auto
qed

text \<open>
  Claim C6. When the resolver's \<open>find_one\<close> finds no shipment with the tracking id, the
  resolver returns without an error and the collection is as it was, whatever the draw.
\<close>

theorem resolver_missing_shipment:
  assumes "find_one trk db = None"
  shows "handle_incident trk days draw now fault db = Inr db"
  using assms by (simp add: handle_incident_def)

theorem resolver_missing_shipment_witness:
  "find_one ''00000000'' [held_shipment] = None
   \<and> handle_incident ''00000000'' 5 20 ''Mon Jan  6 10:00:42 2025'' False [held_shipment]
       = Inr [held_shipment]"
proof -
  have h: "find_one ''00000000'' [held_shipment] = None"
    by (simp add: held_shipment_def)
  from resolver_missing_shipment [OF h] show ?thesis using h by simp
qed

subsection \<open>The scheduler's iteration, case by case\<close>

lemma length_statuses [simp]: "length statuses = 7"
  by (simp add: statuses_def)

lemma find_one_update_first:
  "(\<And>d. tracking (g d) = tracking d) \<Longrightarrow>
     find_one u (update_first t g db)
       = (if u = t then map_option g (find_one u db) else find_one u db)"
  by (induction db) auto

lemma process_shipment_cases:
  assumes "process_shipment delta days now fault sh db = Inr (db', sp)"
  obtains
    (finish) "6 \<le> current_step_index sh" "\<not> fault"
      "db' = update_first (tracking sh) (\<lambda>d. d\<lparr>finished := True\<rparr>) db" "sp = None"
  | (skip) "current_step_index sh < 6" "on_hold sh = Some True" "db' = db" "sp = None"
  | (incident) dur where "current_step_index sh = 3" "\<not> incident_checked sh"
      "incident_decision sh" "on_hold sh \<noteq> Some True" "\<not> fault"
      "py_index (step_durations sh) (current_step_index sh) = Inr dur"
      "db' = update_first (tracking sh)
               (\<lambda>d. d\<lparr>incident_checked := True, status := incident_status days,
                       on_hold := Some True,
                       history := history d @ [(status_incident, now)]\<rparr>) db"
      "sp = Some (tracking sh, days)"
  | (advance) new_status dur where "current_step_index sh < 6" "on_hold sh \<noteq> Some True"
      "\<not> (current_step_index sh = 3 \<and> \<not> incident_checked sh \<and> incident_decision sh)"
      "py_index (step_durations sh) (current_step_index sh) = Inr dur"
      "of_int dur \<le> time_in_step sh + delta"
      "py_index statuses (current_step_index sh + 1) = Inr new_status" "\<not> fault"
      "db' = update_first (tracking sh)
               (\<lambda>d. (if 6 \<le> current_step_index sh + 1 then d\<lparr>finished := True\<rparr> else d)
                     \<lparr>current_step_index := current_step_index sh + 1,
                      status := new_status,
                      time_in_step := 0,
                      history := history d @ [(new_status, now)]\<rparr>) db"
      "sp = None"
  | (wait) dur where "current_step_index sh < 6" "on_hold sh \<noteq> Some True"
      "\<not> (current_step_index sh = 3 \<and> \<not> incident_checked sh \<and> incident_decision sh)"
      "py_index (step_durations sh) (current_step_index sh) = Inr dur"
      "time_in_step sh + delta < of_int dur" "\<not> fault"
      "db' = update_first (tracking sh) (\<lambda>d. d\<lparr>time_in_step := time_in_step sh + delta\<rparr>) db"
      "sp = None"
  using assms
  unfolding process_shipment_def Let_def update_one_def
  by (auto split: if_splits sum.splits simp: not_le)

subsection \<open>The invariant of a run\<close>

lemma inv_benign:
  assumes "inv s" and b: "\<And>d. benign d (g d)"
  shows "inv (s\<lparr>sys_db := update_first t g (sys_db s)\<rparr>)"
proof -
  have tr: "\<And>d. tracking (g d) = tracking d" using b by (simp add: benign_def)
  have ag: "\<And>sh d. agrees sh d \<Longrightarrow> agrees sh (g d)"
    using b by (simp add: benign_def agrees_def)
  have he: "\<And>d. held d \<Longrightarrow> held (g d)"
    using b by (simp add: benign_def held_def)
  have ch: "\<And>d. incident_checked d \<Longrightarrow> incident_checked (g d)"
    using b by (simp add: benign_def)
  show ?thesis
    using assms(1) unfolding inv_def
    by (auto simp: find_one_update_first [OF tr] ag he ch)
qed

lemma inv_Archive: "inv s \<Longrightarrow> inv (step (Archive t fault) s)"
proof -
  assume i: "inv s"
  have "\<And>d. benign d (d\<lparr>archived := True\<rparr>)" by (simp add: benign_def)
  from inv_benign [OF i, of "\<lambda>d. d\<lparr>archived := True\<rparr>", OF this]
  show ?thesis using i
    by (auto simp: archive_shipment_def update_one_def split: option.splits sum.splits)
qed


lemma inv_Create: "inv s \<Longrightarrow> inv (step (Create u q dst dr now fault) s)"
  unfolding inv_def
  by (auto simp: generate_tracking_for_def insert_one_def Let_def find_one_append
           split: option.splits)

lemma inv_TickRead:
  assumes "inv s" and "distinct (map tracking (sys_db s))"
  shows "inv (step (TickRead delta) s)"
proof -
  have "distinct (map tracking (find_active (sys_db s)))"
    using assms(2) by (simp add: find_active_def distinct_map_filter)
  moreover have "\<forall>sh \<in> set (find_active (sys_db s)).
                   \<exists>d. find_one (tracking sh) (sys_db s) = Some d \<and> agrees sh d"
    using assms(2) by (auto simp: find_active_def find_one_distinct agrees_def)
  ultimately show ?thesis
    using assms(1) unfolding inv_def by auto
qed

lemma remove_nth_distinct:
  assumes "distinct (map f xs)" and "k < length xs"
  shows "distinct (map f (take k xs @ drop (Suc k) xs))
       \<and> f (xs ! k) \<notin> f ` set (take k xs @ drop (Suc k) xs)
       \<and> set (take k xs @ drop (Suc k) xs) \<subseteq> set xs"
proof -
  have "xs = take k xs @ xs ! k # drop (Suc k) xs"
    using assms(2) by (simp add: id_take_nth_drop)
  then have "distinct (map f (take k xs @ xs ! k # drop (Suc k) xs))"
    using assms(1) by simp
  then have "distinct (map f (take k xs @ drop (Suc k) xs))
       \<and> f (xs ! k) \<notin> f ` set (take k xs @ drop (Suc k) xs)"
    by auto
  moreover have "set (take k xs @ drop (Suc k) xs) \<subseteq> set xs"
    using set_take_subset set_drop_subset by fastforce
  ultimately show ?thesis by blast
qed

lemma inv_resolvers_sub:
  assumes "inv s" and "distinct (map fst left)" and "set left \<subseteq> set (sys_resolvers s)"
  shows "inv (s\<lparr>sys_resolvers := left\<rparr>)"
  using assms unfolding inv_def by auto

lemma inv_Resolve:
  assumes "inv s"
  shows "inv (step (Resolve k draw now fault) s)"
proof (cases "k < length (sys_resolvers s)")
  case False
  then show ?thesis using assms by simp
next
  case True
  define r where "r = sys_resolvers s ! k"
  define left where "left = take k (sys_resolvers s) @ drop (Suc k) (sys_resolvers s)"
  have dr: "distinct (map fst (sys_resolvers s))" using assms by (simp add: inv_def)
  from remove_nth_distinct [OF dr True]
  have l1: "distinct (map fst left)" and l2: "fst r \<notin> fst ` set left"
    and l3: "set left \<subseteq> set (sys_resolvers s)"
    by (simp_all add: left_def r_def)
  have base: "inv (s\<lparr>sys_resolvers := left\<rparr>)"
    using inv_resolvers_sub [OF assms l1 l3] .
  show ?thesis
  proof (cases "handle_incident (fst r) (snd r) draw now fault (sys_db s)")
    case (Inl e)
    then show ?thesis using True base by (simp add: Let_def r_def left_def)
  next
    case (Inr db')
    have st: "step (Resolve k draw now fault) s = s\<lparr>sys_db := db', sys_resolvers := left\<rparr>"
      using True Inr by (simp add: Let_def r_def left_def)
    consider (same) "db' = sys_db s"
      | (cancel) "db' = update_first (fst r)
                   (\<lambda>d. d\<lparr>status := status_cancelled, finished := True,
                           history := history d @ [(status_cancelled, now)]\<rparr>) (sys_db s)"
      | (resume) "db' = update_first (fst r)
                   (\<lambda>d. d\<lparr>status := ''En transit'',
                           history := history d @ [(''En transit'', now)],
                           on_hold := None\<rparr>) (sys_db s)"
      using Inr
      by (auto simp: handle_incident_def update_one_def Let_def split: option.splits if_splits)
    then show ?thesis
    proof cases
      case same
      show ?thesis unfolding st same using base by simp
    next
      case cancel
      have "\<And>d. benign d (d\<lparr>status := status_cancelled, finished := True,
                           history := history d @ [(status_cancelled, now)]\<rparr>)"
        by (simp add: benign_def)
      from inv_benign [OF assms, of _ "fst r", OF this]
      have "inv (s\<lparr>sys_db := db'\<rparr>)" unfolding cancel .
      from inv_resolvers_sub [OF this, of left]
      show ?thesis unfolding st using l1 l3 by simp
    next
      case resume
      show ?thesis
        unfolding st resume
        using base l2 unfolding inv_def
        by (auto simp: find_one_update_first agrees_def image_iff)
    qed
  qed
qed


lemma inv_snapshot_tail:
  assumes "inv s" and "sys_snapshot s = sh # rest"
  shows "inv (s\<lparr>sys_snapshot := rest\<rparr>)"
  using assms unfolding inv_def by auto

lemma inv_TickStep:
  assumes "inv s"
  shows "inv (step (TickStep days now fault) s)"
proof (cases "sys_running s")
  case False
  then show ?thesis using assms by simp
next
  case True
  show ?thesis
  proof (cases "sys_snapshot s")
    case Nil
    then show ?thesis using assms True by simp
  next
    case (Cons sh rest)
    show ?thesis
    proof (cases "process_shipment (sys_delta s) days now fault sh (sys_db s)")
      case (Inl e)
      have "inv (s\<lparr>sys_snapshot := [], sys_running := False\<rparr>)"
        using assms unfolding inv_def by auto
      then show ?thesis using True Cons Inl by simp
    next
      case (Inr p)
      obtain db' sp where p: "p = (db', sp)" by (cases p)
      define ext where "ext = (case sp of None \<Rightarrow> [] | Some a \<Rightarrow> [a])"
      have st: "step (TickStep days now fault) s
                  = s\<lparr>sys_db := db', sys_snapshot := rest,
                      sys_resolvers := sys_resolvers s @ ext,
                      sys_started := sys_started s @ ext\<rparr>"
        using True Cons Inr p by (simp add: ext_def)
      have ps: "process_shipment (sys_delta s) days now fault sh (sys_db s) = Inr (db', sp)"
        using Inr p by simp
      have nin: "tracking sh \<notin> tracking ` set rest" and drest: "distinct (map tracking rest)"
        using assms Cons by (auto simp: inv_def)
      obtain d where d: "find_one (tracking sh) (sys_db s) = Some d" and ag: "agrees sh d"
        using assms Cons by (auto simp: inv_def)
      have others: "\<forall>x \<in> set rest. \<exists>d. find_one (tracking x) (sys_db s) = Some d \<and> agrees x d"
        using assms Cons by (auto simp: inv_def)
      have tl: "inv (s\<lparr>sys_snapshot := rest\<rparr>)"
        using inv_snapshot_tail [OF assms Cons] .
      from ps show ?thesis
      proof (cases rule: process_shipment_cases)
        case finish
        have "\<And>d. benign d (d\<lparr>finished := True\<rparr>)" by (simp add: benign_def)
        from inv_benign [OF assms, of _ "tracking sh", OF this]
        have "inv (s\<lparr>sys_db := db'\<rparr>)" unfolding finish .
        from inv_snapshot_tail [OF this, of sh rest]
        show ?thesis unfolding st using Cons finish by (simp add: ext_def)
      next
        case skip
        show ?thesis unfolding st using tl skip by (simp add: ext_def)
      next
        case (incident dur)
        have nc: "\<not> incident_checked d" using ag incident by (simp add: agrees_def)
        have nr: "tracking sh \<notin> fst ` set (sys_resolvers s)"
          using assms d nc by (auto simp: inv_def held_def)
        have ns: "tracking sh \<notin> fst ` set (sys_started s)"
          using assms d nc by (auto simp: inv_def)
        have i3: "current_step_index d = 3" using ag incident by (simp add: agrees_def)
        have e: "ext = [(tracking sh, days)]" using incident by (simp add: ext_def)
        show ?thesis
          unfolding st incident e
          using assms nr ns nin drest others d i3 unfolding inv_def
          by (auto simp: find_one_update_first held_def image_iff)
      next
        case (advance new_status dur)
        have nh: "on_hold d \<noteq> Some True" using ag advance by (auto simp: agrees_def)
        have nr: "tracking sh \<notin> fst ` set (sys_resolvers s)"
          using assms d nh by (auto simp: inv_def held_def)
        have e: "ext = []" using advance by (simp add: ext_def)
        show ?thesis
          unfolding st advance e
          using assms nr nin drest others d unfolding inv_def
          by (auto simp: find_one_update_first image_iff)
      next
        case (wait dur)
        have nh: "on_hold d \<noteq> Some True" using ag wait by (auto simp: agrees_def)
        have nr: "tracking sh \<notin> fst ` set (sys_resolvers s)"
          using assms d nh by (auto simp: inv_def held_def)
        have e: "ext = []" using wait by (simp add: ext_def)
        show ?thesis
          unfolding st wait e
          using assms nr nin drest others d unfolding inv_def
          by (auto simp: find_one_update_first image_iff)
      qed
    qed
  qed
qed


lemma handle_incident_trackings:
  "handle_incident t days draw now fault db = Inr db' \<Longrightarrow> map tracking db' = map tracking db"
  by (auto simp: handle_incident_def update_one_def Let_def map_field_update_first
           split: option.splits if_splits)

lemma process_shipment_trackings:
  "process_shipment delta days now fault sh db = Inr (db', sp) \<Longrightarrow>
     map tracking db' = map tracking db"
  by (erule process_shipment_cases) (simp_all add: map_field_update_first)

lemma archive_shipment_trackings:
  "archive_shipment t fault db = Inr (c, db') \<Longrightarrow> map tracking db' = map tracking db"
  by (auto simp: archive_shipment_def update_one_def map_field_update_first
           split: option.splits sum.splits if_splits)

lemma step_trackings: "\<exists>ext. map tracking (sys_db (step e s)) = map tracking (sys_db s) @ ext"
proof (cases e)
  case (Create u q dst dr now fault)
  then show ?thesis
    by (auto simp: generate_tracking_for_def insert_one_def Let_def)
next
  case (Archive t fault)
  then show ?thesis
    by (auto dest: archive_shipment_trackings split: sum.splits)
next
  case (TickRead d)
  then show ?thesis by simp
next
  case (TickStep days now fault)
  then show ?thesis
    by (auto dest: process_shipment_trackings split: sum.splits list.splits)
next
  case (Resolve k draw now fault)
  then show ?thesis
    by (auto simp: Let_def dest: handle_incident_trackings split: sum.splits)
qed

lemma step_distinct:
  "distinct (map tracking (sys_db (step e s))) \<Longrightarrow> distinct (map tracking (sys_db s))"
  using step_trackings [of e s] by auto

lemma inv_step:
  assumes "inv s" and "distinct (map tracking (sys_db s))"
  shows "inv (step e s)"
proof (cases e)
  case (Create u q dst dr now fault)
  then show ?thesis using inv_Create [OF assms(1)] by simp
next
  case (Archive t fault)
  then show ?thesis using inv_Archive [OF assms(1)] by simp
next
  case (TickRead d)
  then show ?thesis using inv_TickRead [OF assms] by simp
next
  case (TickStep days now fault)
  then show ?thesis using inv_TickStep [OF assms(1)] by simp
next
  case (Resolve k draw now fault)
  then show ?thesis using inv_Resolve [OF assms(1)] by simp
qed

lemma inv_init: "inv (init db0)"
  by (simp add: inv_def init_def)

lemma inv_run:
  assumes "inv s"
  shows "distinct (map tracking (sys_db (run evs s))) \<Longrightarrow> inv (run evs s)"
proof (induction evs rule: rev_induct)
  case Nil
  then show ?case using assms by (simp add: run_Nil)
next
  case (snoc e evs)
  have d: "distinct (map tracking (sys_db (run evs s)))"
    using snoc.prems step_distinct by (simp add: run_snoc)
  from inv_step [OF snoc.IH [OF d] d] show ?case by (simp add: run_snoc)
qed

lemma distinct_map_filter_le1:
  "distinct (map f xs) \<Longrightarrow> length (filter (\<lambda>x. f x = a) xs) \<le> 1"
proof (induction xs)
  case Nil
  then show ?case by simp
next
  case (Cons x xs)
  show ?case
  proof (cases "f x = a")
    case True
    then have "a \<notin> f ` set xs" using Cons.prems by auto
    then have "filter (\<lambda>x. f x = a) xs = []" by (auto simp: filter_empty_conv)
    then show ?thesis using True by simp
  next
    case False
    then show ?thesis using Cons by simp
  qed
qed

lemma spawn_sets_checked:
  assumes "process_shipment delta days now fault sh db = Inr (db', Some r)"
  shows "r = (tracking sh, days) \<and> current_step_index sh = 3 \<and> \<not> incident_checked sh
       \<and> incident_decision sh
       \<and> (\<forall>d. find_one (tracking sh) db = Some d \<longrightarrow>
             (\<exists>d'. find_one (tracking sh) db' = Some d' \<and> incident_checked d'
                 \<and> on_hold d' = Some True
                 \<and> history d' = history d @ [(status_incident, now)]))"
  using assms
  by (cases rule: process_shipment_cases) (simp_all add: find_one_update_first)

lemma checked_never_spawns:
  assumes "incident_checked sh"
    and "process_shipment delta days now fault sh db = Inr (db', sp)"
  shows "sp = None"
  using assms(2)
  by (cases rule: process_shipment_cases) (simp_all add: assms(1))

subsection \<open>Resolvers started when tracking ids collide\<close>

lemma set_update_first:
  "x \<in> set (update_first t g db) \<Longrightarrow> x \<in> set db \<or> (\<exists>y \<in> set db. tracking y = t \<and> x = g y)"
  by (induction db) (auto split: if_splits)

lemma shadows_idle_update_first:
  assumes "\<And>d. tracking (g d) = tracking d"
  shows "shadows_idle db \<Longrightarrow> shadows_idle (update_first t g db)"
proof (induction db)
  case Nil
  then show ?case by simp
next
  case (Cons d ds)
  show ?case
  proof (cases "tracking d = t")
    case True
    then show ?thesis using Cons.prems assms by simp
  next
    case False
    have "\<forall>x \<in> set (update_first t g ds). tracking x = tracking d \<longrightarrow> \<not> triggers x"
    proof (intro ballI impI)
      fix x assume x: "x \<in> set (update_first t g ds)" and tx: "tracking x = tracking d"
      from set_update_first [OF x] show "\<not> triggers x"
      proof
        assume "x \<in> set ds"
        then show ?thesis using Cons.prems tx by simp
      next
        assume "\<exists>y \<in> set ds. tracking y = t \<and> x = g y"
        then obtain y where "tracking y = t" "x = g y" by blast
        then have "tracking x = t" using assms by simp
        then show ?thesis using tx False by simp
      qed
    qed
    then show ?thesis using False Cons by simp
  qed
qed

lemma shadows_idle_append:
  "shadows_idle db \<Longrightarrow> \<not> triggers x \<Longrightarrow> shadows_idle (db @ [x])"
  by (induction db) auto

lemma shadows_idle_first:
  "shadows_idle db \<Longrightarrow> d \<in> set db \<Longrightarrow> triggers d \<Longrightarrow> find_one (tracking d) db = Some d"
  by (induction db) auto

lemma shadows_idle_distinct:
  "shadows_idle db \<Longrightarrow> distinct (map tracking (filter triggers db))"
  by (induction db) auto

lemma distinct_shadows_idle:
  "distinct (map tracking db) \<Longrightarrow> shadows_idle db"
  by (induction db) (auto simp: image_iff)

lemma spawn_inv_write:
  assumes "spawn_inv s" and tr: "\<And>d. tracking (g d) = tracking d"
    and ch: "\<And>d. incident_checked (g d) = incident_checked d"
  shows "spawn_inv (s\<lparr>sys_db := update_first t g (sys_db s)\<rparr>)"
  using assms(1) shadows_idle_update_first [of g, OF tr] unfolding spawn_inv_def
  by (auto simp: find_one_update_first [of g, OF tr] ch)

lemma spawn_inv_tail:
  assumes "spawn_inv s" and "sys_snapshot s = sh # rest"
  shows "spawn_inv (s\<lparr>sys_snapshot := rest\<rparr>)"
  using assms unfolding spawn_inv_def by (auto split: if_splits)

lemma spawn_inv_Archive: "spawn_inv s \<Longrightarrow> spawn_inv (step (Archive t fault) s)"
proof -
  assume i: "spawn_inv s"
  from spawn_inv_write [OF i, of "\<lambda>d. d\<lparr>archived := True\<rparr>" t]
  show ?thesis using i
    by (auto simp: archive_shipment_def update_one_def split: option.splits sum.splits)
qed

lemma spawn_inv_Create: "spawn_inv s \<Longrightarrow> spawn_inv (step (Create u q dst dr now fault) s)"
  unfolding spawn_inv_def
  by (auto simp: generate_tracking_for_def insert_one_def Let_def find_one_append
                 shadows_idle_append triggers_def
           split: option.splits)

lemma spawn_inv_TickRead:
  assumes "spawn_inv s"
  shows "spawn_inv (step (TickRead delta) s)"
proof -
  have sh: "shadows_idle (sys_db s)" using assms by (simp add: spawn_inv_def)
  have "distinct (map tracking (filter (\<lambda>d. finished d = False \<and> archived d = False)
                                 (filter triggers (sys_db s))))"
    using distinct_map_filter [OF shadows_idle_distinct [OF sh]] .
  moreover have "filter (\<lambda>d. finished d = False \<and> archived d = False) (filter triggers (sys_db s))
                   = filter triggers (find_active (sys_db s))"
    unfolding find_active_def filter_filter by (rule filter_cong) auto
  ultimately have "distinct (map tracking (filter triggers (find_active (sys_db s))))"
    by simp
  moreover have "\<forall>x \<in> set (find_active (sys_db s)). triggers x \<longrightarrow>
                   (\<exists>d. find_one (tracking x) (sys_db s) = Some d \<and> \<not> incident_checked d)"
    using shadows_idle_first [OF sh] by (auto simp: find_active_def triggers_def)
  ultimately show ?thesis
    using assms unfolding spawn_inv_def by auto
qed

lemma spawn_inv_Resolve:
  assumes "spawn_inv s"
  shows "spawn_inv (step (Resolve k draw now fault) s)"
proof (cases "k < length (sys_resolvers s)")
  case False
  then show ?thesis using assms by simp
next
  case True
  define r where "r = sys_resolvers s ! k"
  define left where "left = take k (sys_resolvers s) @ drop (Suc k) (sys_resolvers s)"
  have res: "\<And>s'. spawn_inv s' \<Longrightarrow> spawn_inv (s'\<lparr>sys_resolvers := left\<rparr>)"
    by (simp add: spawn_inv_def)
  show ?thesis
  proof (cases "handle_incident (fst r) (snd r) draw now fault (sys_db s)")
    case (Inl e)
    then show ?thesis using True res [OF assms] by (simp add: Let_def r_def left_def)
  next
    case (Inr db')
    have st: "step (Resolve k draw now fault) s = s\<lparr>sys_db := db', sys_resolvers := left\<rparr>"
      using True Inr by (simp add: Let_def r_def left_def)
    consider (same) "db' = sys_db s"
      | (cancel) "db' = update_first (fst r)
                   (\<lambda>d. d\<lparr>status := status_cancelled, finished := True,
                           history := history d @ [(status_cancelled, now)]\<rparr>) (sys_db s)"
      | (resume) "db' = update_first (fst r)
                   (\<lambda>d. d\<lparr>status := ''En transit'',
                           history := history d @ [(''En transit'', now)],
                           on_hold := None\<rparr>) (sys_db s)"
      using Inr
      by (auto simp: handle_incident_def update_one_def Let_def split: option.splits if_splits)
    then show ?thesis
    proof cases
      case same
      show ?thesis unfolding st same using res [OF assms] by simp
    next
      case cancel
      from spawn_inv_write [OF assms, of _ "fst r"]
      have "spawn_inv (s\<lparr>sys_db := db'\<rparr>)" unfolding cancel by simp
      from res [OF this] show ?thesis unfolding st by simp
    next
      case resume
      from spawn_inv_write [OF assms, of _ "fst r"]
      have "spawn_inv (s\<lparr>sys_db := db'\<rparr>)" unfolding resume by simp
      from res [OF this] show ?thesis unfolding st by simp
    qed
  qed
qed

lemma spawn_inv_TickStep:
  assumes "spawn_inv s"
  shows "spawn_inv (step (TickStep days now fault) s)"
proof (cases "sys_running s")
  case False
  then show ?thesis using assms by simp
next
  case True
  show ?thesis
  proof (cases "sys_snapshot s")
    case Nil
    then show ?thesis using assms True by simp
  next
    case (Cons sh rest)
    show ?thesis
    proof (cases "process_shipment (sys_delta s) days now fault sh (sys_db s)")
      case (Inl e)
      have "spawn_inv (s\<lparr>sys_snapshot := [], sys_running := False\<rparr>)"
        using assms unfolding spawn_inv_def by auto
      then show ?thesis using True Cons Inl by simp
    next
      case (Inr p)
      obtain db' sp where p: "p = (db', sp)" by (cases p)
      define ext where "ext = (case sp of None \<Rightarrow> [] | Some a \<Rightarrow> [a])"
      have st: "step (TickStep days now fault) s
                  = s\<lparr>sys_db := db', sys_snapshot := rest,
                      sys_resolvers := sys_resolvers s @ ext,
                      sys_started := sys_started s @ ext\<rparr>"
        using True Cons Inr p by (simp add: ext_def)
      have ps: "process_shipment (sys_delta s) days now fault sh (sys_db s) = Inr (db', sp)"
        using Inr p by simp
      have quiet: "spawn_inv (s\<lparr>sys_db := update_first (tracking sh) g (sys_db s),
                               sys_snapshot := rest,
                               sys_resolvers := sys_resolvers s @ [],
                               sys_started := sys_started s @ []\<rparr>)"
        if "\<And>d. tracking (g d) = tracking d"
          and "\<And>d. incident_checked (g d) = incident_checked d" for g
      proof -
        from spawn_inv_write [OF assms that]
        have "spawn_inv (s\<lparr>sys_db := update_first (tracking sh) g (sys_db s)\<rparr>)" .
        from spawn_inv_tail [OF this, of sh rest]
        show ?thesis using Cons by (simp add: spawn_inv_def)
      qed
      from ps show ?thesis
      proof (cases rule: process_shipment_cases)
        case finish
        have e: "ext = []" using finish by (simp add: ext_def)
        show ?thesis unfolding st finish(3) e by (rule quiet) simp_all
      next
        case skip
        have e: "ext = []" using skip by (simp add: ext_def)
        from spawn_inv_tail [OF assms Cons]
        show ?thesis unfolding st e using skip by (simp add: spawn_inv_def)
      next
        case (incident dur)
        have tg: "triggers sh" using incident by (simp add: triggers_def)
        obtain d where d: "find_one (tracking sh) (sys_db s) = Some d" and nc: "\<not> incident_checked d"
          using assms Cons tg by (auto simp: spawn_inv_def)
        have ns: "tracking sh \<notin> fst ` set (sys_started s)"
          using assms d nc by (auto simp: spawn_inv_def)
        have nin: "\<forall>x \<in> set rest. triggers x \<longrightarrow> tracking x \<noteq> tracking sh"
        proof (intro ballI impI)
          fix x assume "x \<in> set rest" "triggers x"
          then have "tracking x \<in> tracking ` set (filter triggers rest)" by simp
          moreover have "tracking sh \<notin> tracking ` set (filter triggers rest)"
            using assms Cons tg by (simp add: spawn_inv_def)
          ultimately show "tracking x \<noteq> tracking sh" by metis
        qed
        have e: "ext = [(tracking sh, days)]" using incident by (simp add: ext_def)
        have tr: "\<And>d. tracking (d\<lparr>incident_checked := True, status := incident_status days,
                       on_hold := Some True,
                       history := history d @ [(status_incident, now)]\<rparr>) = tracking d"
          by simp
        have sh: "shadows_idle db'"
          unfolding incident(7)
          using assms shadows_idle_update_first [OF tr] by (simp add: spawn_inv_def)
        have a: "distinct (map tracking (filter triggers rest))"
          using assms Cons by (auto simp: spawn_inv_def split: if_splits)
        have b: "\<forall>x \<in> set rest. triggers x \<longrightarrow>
                   (\<exists>d. find_one (tracking x) db' = Some d \<and> \<not> incident_checked d)"
          unfolding incident(7)
          using assms Cons nin by (auto simp: spawn_inv_def find_one_update_first)
        have c: "distinct (map fst (sys_started s @ ext))"
          using assms ns e by (auto simp: spawn_inv_def)
        have f: "\<forall>r \<in> set (sys_started s @ ext).
                   \<exists>d. find_one (fst r) db' = Some d \<and> incident_checked d"
          unfolding incident(7) e
          using assms d by (auto simp: spawn_inv_def find_one_update_first)
        show ?thesis unfolding st using sh a b c f by (simp add: spawn_inv_def)
      next
        case (advance new_status dur)
        have e: "ext = []" using advance by (simp add: ext_def)
        show ?thesis unfolding st advance(8) e by (rule quiet) simp_all
      next
        case (wait dur)
        have e: "ext = []" using wait by (simp add: ext_def)
        show ?thesis unfolding st wait(7) e by (rule quiet) simp_all
      qed
    qed
  qed
qed

lemma spawn_inv_step: "spawn_inv s \<Longrightarrow> spawn_inv (step e s)"
proof (cases e)
  case (Create u q dst dr now fault)
  then show "spawn_inv s \<Longrightarrow> ?thesis" using spawn_inv_Create by simp
next
  case (Archive t fault)
  then show "spawn_inv s \<Longrightarrow> ?thesis" using spawn_inv_Archive by simp
next
  case (TickRead d)
  then show "spawn_inv s \<Longrightarrow> ?thesis" using spawn_inv_TickRead by simp
next
  case (TickStep days now fault)
  then show "spawn_inv s \<Longrightarrow> ?thesis" using spawn_inv_TickStep by simp
next
  case (Resolve k draw now fault)
  then show "spawn_inv s \<Longrightarrow> ?thesis" using spawn_inv_Resolve by simp
qed

lemma spawn_inv_init: "shadows_idle db0 \<Longrightarrow> spawn_inv (init db0)"
  by (simp add: spawn_inv_def init_def)

lemma spawn_inv_run: "spawn_inv s \<Longrightarrow> spawn_inv (run evs s)"
proof (induction evs rule: rev_induct)
  case Nil
  then show ?case by (simp add: run_Nil)
next
  case (snoc e evs)
  then show ?case using spawn_inv_step by (simp add: run_snoc)
qed

lemma started_once:
  assumes "spawn_inv s"
  shows "length (filter (\<lambda>r. fst r = trk) (sys_started s)) \<le> 1
       \<and> (\<forall>r \<in> set (sys_started s).
             \<exists>d. find_one (fst r) (sys_db s) = Some d \<and> incident_checked d)"
  using assms distinct_map_filter_le1 [of fst "sys_started s" trk] by (auto simp: spawn_inv_def)

text \<open>
  Claim C5. An iteration starts a resolver only for a document read at stage 3, eligible,
  with \<open>incident_checked\<close> unset, and the one write that declares the incident (status, on
  hold, history entry) sets \<open>incident_checked\<close> on the stored shipment; an iteration on a
  document read with \<open>incident_checked\<close> set starts none. So in every run of the scheduler,
  the resolvers and the two routes from the empty collection, whatever tracking ids the
  factory draws, at most one resolver thread is ever started for a tracking id, and the
  first shipment of every resolver started has \<open>incident_checked\<close> set. The same holds from
  any collection in which no document behind another with its id satisfies the trigger
  condition, so from any collection with distinct ids and from any collection that such a
  run has left.
\<close>

theorem one_resolver_per_shipment:
  "(process_shipment delta days now fault sh db = Inr (db', Some r) \<longrightarrow>
      r = (tracking sh, days) \<and> current_step_index sh = 3 \<and> \<not> incident_checked sh
      \<and> incident_decision sh
      \<and> (\<forall>d. find_one (tracking sh) db = Some d \<longrightarrow>
            (\<exists>d'. find_one (tracking sh) db' = Some d' \<and> incident_checked d'
                \<and> on_hold d' = Some True
                \<and> history d' = history d @ [(status_incident, now)])))
   \<and> (incident_checked sh \<and> process_shipment delta days now fault sh db = Inr (db', sp) \<longrightarrow>
        sp = None)
   \<and> length (filter (\<lambda>r. fst r = trk) (sys_started (run evs (init [])))) \<le> 1
   \<and> (\<forall>r \<in> set (sys_started (run evs (init []))).
         \<exists>d. find_one (fst r) (sys_db (run evs (init []))) = Some d \<and> incident_checked d)
   \<and> (shadows_idle db0 \<longrightarrow>
        shadows_idle (sys_db (run evs (init db0)))
        \<and> length (filter (\<lambda>r. fst r = trk) (sys_started (run evs (init db0)))) \<le> 1
        \<and> (\<forall>r \<in> set (sys_started (run evs (init db0))).
              \<exists>d. find_one (fst r) (sys_db (run evs (init db0))) = Some d
                  \<and> incident_checked d))"
proof (intro conjI)
  show "process_shipment delta days now fault sh db = Inr (db', Some r) \<longrightarrow>
      r = (tracking sh, days) \<and> current_step_index sh = 3 \<and> \<not> incident_checked sh
      \<and> incident_decision sh
      \<and> (\<forall>d. find_one (tracking sh) db = Some d \<longrightarrow>
            (\<exists>d'. find_one (tracking sh) db' = Some d' \<and> incident_checked d'
                \<and> on_hold d' = Some True
                \<and> history d' = history d @ [(status_incident, now)]))"
    using spawn_sets_checked by blast
next
  show "incident_checked sh \<and> process_shipment delta days now fault sh db = Inr (db', sp) \<longrightarrow>
        sp = None"
    using checked_never_spawns by blast
next
  have "spawn_inv (run evs (init []))"
    using spawn_inv_run [OF spawn_inv_init] by simp
  from started_once [OF this, of trk]
  show "length (filter (\<lambda>r. fst r = trk) (sys_started (run evs (init [])))) \<le> 1"
    and "\<forall>r \<in> set (sys_started (run evs (init []))).
         \<exists>d. find_one (fst r) (sys_db (run evs (init []))) = Some d \<and> incident_checked d"
    by blast+
next
  show "shadows_idle db0 \<longrightarrow>
        shadows_idle (sys_db (run evs (init db0)))
        \<and> length (filter (\<lambda>r. fst r = trk) (sys_started (run evs (init db0)))) \<le> 1
        \<and> (\<forall>r \<in> set (sys_started (run evs (init db0))).
              \<exists>d. find_one (fst r) (sys_db (run evs (init db0))) = Some d
                  \<and> incident_checked d)"
  proof
    assume "shadows_idle db0"
    then have i: "spawn_inv (run evs (init db0))"
      using spawn_inv_run [OF spawn_inv_init] by simp
    then have "shadows_idle (sys_db (run evs (init db0)))" by (simp add: spawn_inv_def)
    with started_once [OF i, of trk]
    show "shadows_idle (sys_db (run evs (init db0)))
        \<and> length (filter (\<lambda>r. fst r = trk) (sys_started (run evs (init db0)))) \<le> 1
        \<and> (\<forall>r \<in> set (sys_started (run evs (init db0))).
              \<exists>d. find_one (fst r) (sys_db (run evs (init db0))) = Some d
                  \<and> incident_checked d)"
      by blast
  qed
qed

theorem one_resolver_per_shipment_witness:
  "map tracking (sys_db (run collision_resume_run (init []))) = [''12345678'', ''12345678'']
   \<and> length (filter (\<lambda>r. fst r = ''12345678'')
                (sys_started (run collision_resume_run (init [])))) \<le> 1
   \<and> sys_started (run collision_resume_run (init [])) = [(''12345678'', 5)]
   \<and> shadows_idle [transit_shipment]
   \<and> shadows_idle (sys_db (run incident_run (init [transit_shipment])))
   \<and> length (filter (\<lambda>r. fst r = ''12345678'')
                (sys_started (run incident_run (init [transit_shipment])))) \<le> 1
   \<and> sys_started (run incident_run (init [transit_shipment])) = [(''12345678'', 5)]
   \<and> map incident_checked (sys_db (run incident_run (init [transit_shipment]))) = [True]"
proof -
  have a: "map tracking (sys_db (run collision_resume_run (init [])))
             = [''12345678'', ''12345678'']"
    by code_simp
  have b: "sys_started (run collision_resume_run (init [])) = [(''12345678'', 5)]"
    by code_simp
  have h: "shadows_idle [transit_shipment]" by simp
  have e: "sys_started (run incident_run (init [transit_shipment])) = [(''12345678'', 5)]"
    by code_simp
  have c: "map incident_checked (sys_db (run incident_run (init [transit_shipment]))) = [True]"
    by code_simp
  note t = one_resolver_per_shipment [where evs = collision_resume_run and trk = "''12345678''"]
  note u = one_resolver_per_shipment [where evs = incident_run and trk = "''12345678''"
             and ?db0.0 = "[transit_shipment]"]
  from t have t3: "length (filter (\<lambda>r. fst r = ''12345678'')
                (sys_started (run collision_resume_run (init [])))) \<le> 1"
    by blast
  from u h have u4: "shadows_idle (sys_db (run incident_run (init [transit_shipment])))
      \<and> length (filter (\<lambda>r. fst r = ''12345678'')
                (sys_started (run incident_run (init [transit_shipment])))) \<le> 1"
    by blast
  show ?thesis using a b h e c t3 u4 by blast
qed

subsection \<open>The tick acts on each document on its own\<close>

lemma update_first_found:
  "find_one t db = Some x \<Longrightarrow> update_first t g db = update_first t (\<lambda>_. g x) db"
  by (induction db) (auto split: if_splits)

lemma update_first_same: "find_one t db = Some x \<Longrightarrow> update_first t (\<lambda>_. x) db = db"
  by (induction db) (auto split: if_splits)

lemma process_shipment_single:
  assumes "process_shipment delta days now fault x [x] = Inr (dbx, sp)"
  obtains d1 where "dbx = [d1]" "tracking d1 = tracking x"
proof -
  have "map tracking dbx = [tracking x]"
    using process_shipment_trackings [OF assms] by simp
  then show ?thesis using that by (cases dbx) auto
qed

lemma process_shipment_local_err:
  assumes "find_one (tracking x) db = Some x"
  shows "process_shipment delta days now fault x db = Inl e
           \<longleftrightarrow> process_shipment delta days now fault x [x] = Inl e"
  unfolding process_shipment_def Let_def update_one_def
  by (auto split: if_splits sum.splits)

lemma process_shipment_local:
  assumes f: "find_one (tracking x) db = Some x"
    and p: "process_shipment delta days now fault x [x] = Inr ([d1], sp)"
  shows "process_shipment delta days now fault x db
           = Inr (update_first (tracking x) (\<lambda>_. d1) db, sp)"
  using p
proof (cases rule: process_shipment_cases)
  case finish
  then show ?thesis
    using update_first_found [OF f, of "\<lambda>d. d\<lparr>finished := True\<rparr>"]
    by (simp add: process_shipment_def update_one_def Let_def)
next
  case skip
  then show ?thesis
    using update_first_same [OF f]
    by (simp add: process_shipment_def update_one_def Let_def)
next
  case (incident dur)
  then show ?thesis
    using update_first_found [OF f, of "\<lambda>d. d\<lparr>incident_checked := True,
            status := incident_status days, on_hold := Some True,
            history := history d @ [(status_incident, now)]\<rparr>"]
    by (simp add: process_shipment_def update_one_def Let_def)
next
  case (advance new_status dur)
  then show ?thesis
    using update_first_found [OF f, of "\<lambda>d. (if 6 \<le> current_step_index x + 1
            then d\<lparr>finished := True\<rparr> else d)
            \<lparr>current_step_index := current_step_index x + 1, status := new_status,
             time_in_step := 0, history := history d @ [(new_status, now)]\<rparr>"]
    by (simp add: process_shipment_def update_one_def Let_def)
next
  case (wait dur)
  then show ?thesis
    using update_first_found [OF f, of "\<lambda>d. d\<lparr>time_in_step := time_in_step x + delta\<rparr>"]
    by (simp add: process_shipment_def update_one_def Let_def)
qed


lemma find_one_update_first_const:
  "tracking d1 = t \<Longrightarrow>
     find_one u (update_first t (\<lambda>_. d1) db)
       = (if u = t then map_option (\<lambda>_. d1) (find_one u db) else find_one u db)"
  by (induction db) auto

lemma process_all_docs:
  assumes "distinct (map tracking xs)"
    and "\<forall>x \<in> set xs. find_one (tracking x) db = Some x"
    and "process_all delta env i xs db th = (eo, db', th')"
  shows "(\<forall>t. t \<notin> tracking ` set xs \<longrightarrow> find_one t db' = find_one t db)
       \<and> (\<forall>x \<in> set xs. \<exists>d'. find_one (tracking x) db' = Some d'
             \<and> ((eo \<noteq> None \<and> d' = x)
                \<or> (\<exists>days now fault sp.
                      process_shipment delta days now fault x [x] = Inr ([d'], sp))))"
  using assms
proof (induction xs arbitrary: i db th)
  case Nil
  then show ?case by simp
next
  case (Cons x xs)
  let ?days = "o_days (env i)" and ?now = "o_now (env i)" and ?fault = "o_fault (env i)"
  have fx: "find_one (tracking x) db = Some x" using Cons.prems(2) by simp
  show ?case
  proof (cases "process_shipment delta ?days ?now ?fault x [x]")
    case (Inl e)
    then have "process_shipment delta ?days ?now ?fault x db = Inl e"
      using process_shipment_local_err [OF fx] by simp
    then have "eo = Some e" "db' = db" using Cons.prems(3) by simp_all
    then show ?thesis using Cons.prems(2) by auto
  next
    case (Inr p)
    obtain dbx sp where p: "p = (dbx, sp)" by (cases p)
    from Inr p obtain d1 where d1: "dbx = [d1]" "tracking d1 = tracking x"
      using process_shipment_single by blast
    have px: "process_shipment delta ?days ?now ?fault x [x] = Inr ([d1], sp)"
      using Inr p d1 by simp
    define db1 where "db1 = update_first (tracking x) (\<lambda>_. d1) db"
    have pd: "process_shipment delta ?days ?now ?fault x db = Inr (db1, sp)"
      using process_shipment_local [OF fx px] by (simp add: db1_def)
    have f1: "find_one t db1 = (if t = tracking x then Some d1 else find_one t db)" for t
      using fx d1(2) by (simp add: db1_def find_one_update_first_const)
    have rest: "process_all delta env (Suc i) xs db1
                  (th @ (case sp of None \<Rightarrow> [] | Some a \<Rightarrow> [a])) = (eo, db', th')"
      using Cons.prems(3) pd by simp
    have dx: "distinct (map tracking xs)" and nx: "tracking x \<notin> tracking ` set xs"
      using Cons.prems(1) by auto
    have "\<forall>y \<in> set xs. find_one (tracking y) db1 = Some y"
    proof
      fix y
      assume y: "y \<in> set xs"
      then have "tracking y \<noteq> tracking x" using nx by (metis imageI)
      then show "find_one (tracking y) db1 = Some y"
        using f1 [of "tracking y"] Cons.prems(2) y by simp
    qed
    from Cons.IH [OF dx this rest]
    have ih1: "\<forall>t. t \<notin> tracking ` set xs \<longrightarrow> find_one t db' = find_one t db1"
      and ih2: "\<forall>y \<in> set xs. \<exists>d'. find_one (tracking y) db' = Some d'
             \<and> ((eo \<noteq> None \<and> d' = y)
                \<or> (\<exists>days now fault sp.
                      process_shipment delta days now fault y [y] = Inr ([d'], sp)))"
      by blast+
    have "find_one (tracking x) db' = Some d1" using ih1 nx f1 [of "tracking x"] by simp
    then have hx: "\<exists>d'. find_one (tracking x) db' = Some d'
             \<and> ((eo \<noteq> None \<and> d' = x)
                \<or> (\<exists>days now fault sp.
                      process_shipment delta days now fault x [x] = Inr ([d'], sp)))"
      using px by blast
    have "\<forall>t. t \<notin> tracking ` set (x # xs) \<longrightarrow> find_one t db' = find_one t db"
    proof (intro allI impI)
      fix t
      assume t: "t \<notin> tracking ` set (x # xs)"
      then have "t \<noteq> tracking x" and "t \<notin> tracking ` set xs" by auto
      then show "find_one t db' = find_one t db" using ih1 f1 [of t] by simp
    qed
    then show ?thesis using hx ih2 by simp
  qed
qed

lemma simulation_tick_docs:
  assumes "distinct (map tracking db)"
    and "simulation_tick delta env db = (eo, db', th)"
    and "find_one t db = Some d"
  shows "\<exists>d'. find_one t db' = Some d'
           \<and> (if finished d \<or> archived d then d' = d
               else (eo \<noteq> None \<and> d' = d)
                  \<or> (\<exists>days now fault sp.
                        process_shipment delta days now fault d [d] = Inr ([d'], sp)))"
proof -
  have da: "distinct (map tracking (find_active db))"
    using assms(1) by (simp add: find_active_def distinct_map_filter)
  have fa: "\<forall>x \<in> set (find_active db). find_one (tracking x) db = Some x"
    using assms(1) by (simp add: find_active_def find_one_distinct)
  have pa: "process_all delta env 0 (find_active db) db [] = (eo, db', th)"
    using assms(2) by (simp add: simulation_tick_def)
  note docs = process_all_docs [OF da fa pa]
  have td: "tracking d = t" and dm: "d \<in> set db"
    using assms(3) find_one_tracking find_one_mem by auto
  show ?thesis
  proof (cases "finished d \<or> archived d")
    case True
    have "t \<notin> tracking ` set (find_active db)"
    proof
      assume "t \<in> tracking ` set (find_active db)"
      then obtain x where x: "x \<in> set (find_active db)" "tracking x = t" by auto
      then have "find_one t db = Some x" using fa by auto
      then have "x = d" using assms(3) by simp
      then show False using x(1) True by (simp add: find_active_def)
    qed
    then show ?thesis using docs assms(3) True by simp
  next
    case False
    then have "d \<in> set (find_active db)" using dm by (simp add: find_active_def)
    then show ?thesis using docs td False by auto
  qed
qed

subsection \<open>The flags \<open>finished\<close> and \<open>archived\<close>\<close>

lemma flags_kept_refl: "flags_kept db db"
  by (simp add: flags_kept_def doc_flags_kept_def)

lemma flags_kept_trans: "flags_kept a b \<Longrightarrow> flags_kept b c \<Longrightarrow> flags_kept a c"
  unfolding flags_kept_def doc_flags_kept_def
  by (metis (no_types, lifting) le_trans less_le_trans)

lemma flags_kept_update_first:
  "(\<And>d. doc_flags_kept d (f d)) \<Longrightarrow> flags_kept db (update_first t f db)"
proof (induction db)
  case Nil
  then show ?case by (simp add: flags_kept_def)
next
  case (Cons a db)
  then show ?case
    by (auto simp: flags_kept_def nth_Cons doc_flags_kept_def split: nat.splits)
qed

lemma flags_kept_append: "flags_kept db (db @ xs)"
  by (simp add: flags_kept_def doc_flags_kept_def nth_append)

lemma handle_incident_flags:
  "handle_incident t days draw now fault db = Inr db' \<Longrightarrow> flags_kept db db'"
  by (auto simp: handle_incident_def update_one_def Let_def flags_kept_refl doc_flags_kept_def
           intro!: flags_kept_update_first split: option.splits if_splits)

lemma handle_incident_archived:
  "handle_incident t days draw now fault db = Inr db' \<Longrightarrow> map archived db' = map archived db"
  by (auto simp: handle_incident_def update_one_def Let_def map_field_update_first
           split: option.splits if_splits)

lemma process_shipment_flags:
  "process_shipment delta days now fault sh db = Inr (db', sp) \<Longrightarrow> flags_kept db db'"
  by (auto simp: process_shipment_def update_one_def Let_def flags_kept_refl doc_flags_kept_def
           intro!: flags_kept_update_first split: sum.splits if_splits)

lemma archive_shipment_flags:
  "archive_shipment t fault db = Inr (c, db') \<Longrightarrow> flags_kept db db'"
  by (auto simp: archive_shipment_def update_one_def flags_kept_refl doc_flags_kept_def
           intro!: flags_kept_update_first split: option.splits sum.splits if_splits)

lemma generate_tracking_for_flags:
  "generate_tracking_for u q dst dr now fault db = Inr (t, db') \<Longrightarrow> flags_kept db db'"
  by (auto simp: generate_tracking_for_def insert_one_def Let_def flags_kept_append
           split: if_splits)

lemma step_flags: "flags_kept (sys_db s) (sys_db (step e s))"
proof (cases e)
  case (Create u q dst dr now fault)
  then show ?thesis
    by (auto simp: flags_kept_refl dest: generate_tracking_for_flags split: sum.splits)
next
  case (Archive t fault)
  then show ?thesis
    by (auto simp: flags_kept_refl dest: archive_shipment_flags split: sum.splits)
next
  case (TickRead d)
  then show ?thesis by (simp add: flags_kept_refl)
next
  case (TickStep days now fault)
  then show ?thesis
    by (auto simp: flags_kept_refl dest: process_shipment_flags split: sum.splits list.splits)
next
  case (Resolve k draw now fault)
  then show ?thesis
    by (auto simp: flags_kept_refl Let_def dest: handle_incident_flags split: sum.splits)
qed

lemma run_flags: "flags_kept (sys_db s) (sys_db (run evs s))"
proof (induction evs rule: rev_induct)
  case Nil
  then show ?case by (simp add: run_Nil flags_kept_refl)
next
  case (snoc e evs)
  then show ?case
    using flags_kept_trans [OF snoc step_flags] by (simp add: run_snoc)
qed

lemma resolve_archived:
  "map archived (sys_db (step (Resolve k draw now fault) s)) = map archived (sys_db s)"
  by (auto simp: Let_def dest: handle_incident_archived split: sum.splits)

lemma process_all_flags:
  "process_all delta env i xs db th = (eo, db', th') \<Longrightarrow> flags_kept db db'"
proof (induction xs arbitrary: i db th)
  case Nil
  then show ?case by (simp add: flags_kept_refl)
next
  case (Cons x xs)
  show ?case
  proof (cases "process_shipment delta (o_days (env i)) (o_now (env i)) (o_fault (env i)) x db")
    case (Inl e)
    then show ?thesis using Cons.prems by (simp add: flags_kept_refl)
  next
    case (Inr p)
    obtain db1 sp where p: "p = (db1, sp)" by (cases p)
    have "flags_kept db db1" using process_shipment_flags Inr p by blast
    moreover have "flags_kept db1 db'" using Cons.IH Cons.prems Inr p by simp
    ultimately show ?thesis using flags_kept_trans by blast
  qed
qed

text \<open>
  Claim C10. No operation takes the flag \<open>finished\<close> or the flag \<open>archived\<close> away from a
  document: not a run of any events (scheduler reads and iterations, resolver completions,
  creations, archivals), not a call of the resolver, a whole tick or the archive route. A
  resolver never changes \<open>archived\<close> at all, also when it completes on an archived shipment.
\<close>

theorem flags_monotone:
  "flags_kept (sys_db s) (sys_db (run evs s))
   \<and> map archived (sys_db (step (Resolve k draw now fault) s)) = map archived (sys_db s)
   \<and> (handle_incident trk days draw now fault db = Inr db'
        \<longrightarrow> flags_kept db db' \<and> map archived db' = map archived db)
   \<and> (simulation_tick delta env db = (eo, db', th) \<longrightarrow> flags_kept db db')
   \<and> (archive_shipment trk fault db = Inr (code, db') \<longrightarrow> flags_kept db db')"
  using run_flags resolve_archived handle_incident_flags handle_incident_archived
    process_all_flags archive_shipment_flags
  by (simp add: simulation_tick_def)

theorem flags_monotone_witness:
  "0 < length (sys_db (run archive_run (init [transit_shipment])))
   \<and> archived (sys_db (run archive_run (init [transit_shipment])) ! 0)
   \<and> flags_kept (sys_db (run archive_run (init [transit_shipment])))
        (sys_db (run [Resolve 0 20 ''Mon Jan  6 10:00:42 2025'' False]
                  (run archive_run (init [transit_shipment]))))
   \<and> archived (sys_db (run [Resolve 0 20 ''Mon Jan  6 10:00:42 2025'' False]
                  (run archive_run (init [transit_shipment]))) ! 0)
   \<and> finished (sys_db (run [Resolve 0 20 ''Mon Jan  6 10:00:42 2025'' False]
                  (run archive_run (init [transit_shipment]))) ! 0)"
proof -
  have a: "0 < length (sys_db (run archive_run (init [transit_shipment])))"
    by code_simp
  have b: "archived (sys_db (run archive_run (init [transit_shipment])) ! 0)"
    by code_simp
  have c: "finished (sys_db (run [Resolve 0 20 ''Mon Jan  6 10:00:42 2025'' False]
                  (run archive_run (init [transit_shipment]))) ! 0)"
    by code_simp
  from flags_monotone [of "run archive_run (init [transit_shipment])"
      "[Resolve 0 20 ''Mon Jan  6 10:00:42 2025'' False]"]
  have d: "flags_kept (sys_db (run archive_run (init [transit_shipment])))
        (sys_db (run [Resolve 0 20 ''Mon Jan  6 10:00:42 2025'' False]
                  (run archive_run (init [transit_shipment]))))"
    by blast
  then have "archived (sys_db (run [Resolve 0 20 ''Mon Jan  6 10:00:42 2025'' False]
                  (run archive_run (init [transit_shipment]))) ! 0)"
    using a b by (auto simp: flags_kept_def doc_flags_kept_def)
  then show ?thesis using a b c d by blast
qed

subsection \<open>Shipments on hold\<close>

lemma on_hold_step:
  assumes "on_hold sh = Some True"
      and "process_shipment delta days now fault sh db = Inr (db', sp)"
  shows "map time_in_step db' = map time_in_step db
       \<and> map current_step_index db' = map current_step_index db \<and> sp = None"
  using assms(2)
  by (cases rule: process_shipment_cases) (simp_all add: assms(1) map_field_update_first)

lemma on_hold_tick:
  assumes "distinct (map tracking db)" and "find_one t db = Some d" and "on_hold d = Some True"
    and "simulation_tick delta env db = (eo, db2, th)"
  shows "\<exists>d'. find_one t db2 = Some d' \<and> time_in_step d' = time_in_step d
           \<and> current_step_index d' = current_step_index d"
proof -
  from simulation_tick_docs [OF assms(1) assms(4) assms(2)]
  obtain d' where f: "find_one t db2 = Some d'"
    and c0: "if finished d \<or> archived d then d' = d
             else (eo \<noteq> None \<and> d' = d)
                \<or> (\<exists>days now fault sp.
                      process_shipment delta days now fault d [d] = Inr ([d'], sp))"
    by blast
  have c: "d' = d \<or> (\<exists>days now fault sp.
                        process_shipment delta days now fault d [d] = Inr ([d'], sp))"
    using c0 by (auto split: if_splits)
  from c have "time_in_step d' = time_in_step d
           \<and> current_step_index d' = current_step_index d"
  proof
    assume "d' = d"
    then show ?thesis by simp
  next
    assume "\<exists>days now fault sp. process_shipment delta days now fault d [d] = Inr ([d'], sp)"
    then obtain days now fault sp
      where "process_shipment delta days now fault d [d] = Inr ([d'], sp)" by blast
    from on_hold_step [OF assms(3) this] show ?thesis by simp
  qed
  then show ?thesis using f by blast
qed

lemma on_hold_TickStep:
  assumes "distinct (map tracking (sys_db (run evs (init db0))))"
    and "sys_snapshot (run evs (init db0)) = sh # rest"
    and "find_one (tracking sh) (sys_db (run evs (init db0))) = Some d"
    and "on_hold d = Some True"
  shows "map time_in_step (sys_db (step (TickStep days now fault) (run evs (init db0))))
           = map time_in_step (sys_db (run evs (init db0)))
       \<and> map current_step_index (sys_db (step (TickStep days now fault) (run evs (init db0))))
           = map current_step_index (sys_db (run evs (init db0)))"
proof -
  let ?s = "run evs (init db0)"
  have "inv ?s" using inv_run [OF inv_init assms(1)] .
  then have "agrees sh d" using assms(2,3) by (auto simp: inv_def)
  then have h: "on_hold sh = Some True" using assms(4) by (simp add: agrees_def)
  show ?thesis
  proof (cases "process_shipment (sys_delta ?s) days now fault sh (sys_db ?s)")
    case (Inl e)
    then show ?thesis using assms(2) by simp
  next
    case (Inr p)
    obtain db' sp where p: "p = (db', sp)" by (cases p)
    from on_hold_step [OF h] Inr p show ?thesis using assms(2) by simp
  qed
qed

lemma declare_step:
  assumes "process_shipment delta days now fault sh db = Inr (db', Some r)"
  shows "map time_in_step db' = map time_in_step db
       \<and> map current_step_index db' = map current_step_index db"
  using assms
  by (cases rule: process_shipment_cases) (simp_all add: map_field_update_first)

lemma held_after_iteration:
  assumes "process_shipment delta days now fault d [d] = Inr ([d'], sp)"
    and "on_hold d' = Some True"
  shows "time_in_step d' = time_in_step d \<and> current_step_index d' = current_step_index d"
  using assms(1)
proof (cases rule: process_shipment_cases)
  case finish
  then show ?thesis by simp
next
  case skip
  then show ?thesis by simp
next
  case (incident dur)
  then show ?thesis by simp
next
  case (advance new_status dur)
  then have "on_hold d' = on_hold d" by (auto split: if_splits)
  then show ?thesis using advance(2) assms(2) by simp
next
  case (wait dur)
  then have "on_hold d' = on_hold d" by simp
  then show ?thesis using wait(2) assms(2) by simp
qed

lemma held_after_tick:
  assumes "distinct (map tracking db)" and "find_one t db = Some d"
    and "simulation_tick delta env db = (eo, db2, th)"
    and "find_one t db2 = Some d'" and "on_hold d' = Some True"
  shows "time_in_step d' = time_in_step d \<and> current_step_index d' = current_step_index d"
proof -
  from simulation_tick_docs [OF assms(1) assms(3) assms(2)] assms(4)
  have c0: "if finished d \<or> archived d then d' = d
             else (eo \<noteq> None \<and> d' = d)
                \<or> (\<exists>days now fault sp.
                      process_shipment delta days now fault d [d] = Inr ([d'], sp))"
    by simp
  have c: "d' = d \<or> (\<exists>days now fault sp.
                        process_shipment delta days now fault d [d] = Inr ([d'], sp))"
    using c0 by (auto split: if_splits)
  then show ?thesis
  proof
    assume "d' = d"
    then show ?thesis by simp
  next
    assume "\<exists>days now fault sp. process_shipment delta days now fault d [d] = Inr ([d'], sp)"
    then obtain days now fault sp
      where "process_shipment delta days now fault d [d] = Inr ([d'], sp)" by blast
    from held_after_iteration [OF this assms(5)] show ?thesis .
  qed
qed

lemma held_after_TickStep:
  assumes "distinct (map tracking (sys_db (run evs (init db0))))"
    and "find_one t (sys_db (run evs (init db0))) = Some d"
    and "find_one t (sys_db (step (TickStep days now fault) (run evs (init db0)))) = Some d'"
    and "on_hold d' = Some True"
  shows "time_in_step d' = time_in_step d \<and> current_step_index d' = current_step_index d"
proof -
  let ?s = "run evs (init db0)"
  have i: "inv ?s" using inv_run [OF inv_init assms(1)] .
  show ?thesis
  proof (cases "sys_running ?s")
    case False
    then show ?thesis using assms(2,3) by simp
  next
    case True
    show ?thesis
    proof (cases "sys_snapshot ?s")
      case Nil
      then show ?thesis using assms(2,3) True by simp
    next
      case (Cons sh rest)
      show ?thesis
      proof (cases "process_shipment (sys_delta ?s) days now fault sh (sys_db ?s)")
        case (Inl e)
        then show ?thesis using assms(2,3) True Cons by simp
      next
        case (Inr p)
        obtain db' sp where p: "p = (db', sp)" by (cases p)
        have f: "find_one t db' = Some d'" using assms(3) True Cons Inr p by simp
        have ps: "process_shipment (sys_delta ?s) days now fault sh (sys_db ?s) = Inr (db', sp)"
          using Inr p by simp
        obtain x where x: "find_one (tracking sh) (sys_db ?s) = Some x" and ag: "agrees sh x"
          using i Cons by (auto simp: inv_def)
        have same: "t = tracking sh \<Longrightarrow> x = d" using x assms(2) by simp
        from ps show ?thesis
        proof (cases rule: process_shipment_cases)
          case finish
          then show ?thesis using f assms(2)
            by (auto simp: find_one_update_first split: if_splits)
        next
          case skip
          then show ?thesis using f assms(2) by simp
        next
          case (incident dur)
          then show ?thesis using f assms(2)
            by (auto simp: find_one_update_first split: if_splits)
        next
          case (advance new_status dur)
          have nh: "on_hold x \<noteq> Some True" using ag advance(2) by (auto simp: agrees_def)
          show ?thesis
          proof (cases "t = tracking sh")
            case True
            then have "on_hold d' = on_hold d"
              using f assms(2) advance(8) by (auto simp: find_one_update_first split: if_splits)
            then show ?thesis using nh same [OF True] assms(4) by simp
          next
            case False
            then show ?thesis using f assms(2) advance(8) by (simp add: find_one_update_first)
          qed
        next
          case (wait dur)
          have nh: "on_hold x \<noteq> Some True" using ag wait(2) by (auto simp: agrees_def)
          show ?thesis
          proof (cases "t = tracking sh")
            case True
            then have "on_hold d' = on_hold d"
              using f assms(2) wait(7) by (auto simp: find_one_update_first)
            then show ?thesis using nh same [OF True] assms(4) by simp
          next
            case False
            then show ?thesis using f assms(2) wait(7) by (simp add: find_one_update_first)
          qed
        qed
      qed
    qed
  qed
qed

text \<open>
  Claim C4, as amended: for collections whose tracking ids are distinct. First and second,
  with no condition: the iteration of the tick on a document read on hold changes no
  \<open>time_in_step\<close> and no \<open>current_step_index\<close> in the collection and starts no resolver, and
  the iteration that declares an incident (the one that sets \<open>on_hold\<close>) changes neither
  field either. Third: over a whole tick on a collection with distinct tracking ids, a
  shipment that is on hold when the tick reads, or on hold after the tick, has after the
  tick the \<open>time_in_step\<close> and the \<open>current_step_index\<close> it had before: no tick both advances
  a shipment and leaves it on hold. Fourth and fifth: in a run of the concurrent threads
  with distinct tracking ids, an iteration on a document that is on hold in the collection
  changes neither field of any document, and a shipment on hold after an iteration has
  both fields as before it.
\<close>

theorem on_hold_no_progress:
  "(on_hold sh = Some True \<and> process_shipment delta days now fault sh db = Inr (db', sp)
      \<longrightarrow> map time_in_step db' = map time_in_step db
          \<and> map current_step_index db' = map current_step_index db \<and> sp = None)
   \<and> (process_shipment delta days now fault sh db = Inr (db', Some r)
      \<longrightarrow> map time_in_step db' = map time_in_step db
          \<and> map current_step_index db' = map current_step_index db)
   \<and> (distinct (map tracking db) \<and> find_one t db = Some d
        \<and> simulation_tick delta env db = (eo, db2, th)
      \<longrightarrow> (\<exists>d'. find_one t db2 = Some d'
             \<and> (on_hold d = Some True \<or> on_hold d' = Some True
                  \<longrightarrow> time_in_step d' = time_in_step d
                      \<and> current_step_index d' = current_step_index d)))
   \<and> (distinct (map tracking (sys_db (run evs (init db0))))
        \<and> sys_snapshot (run evs (init db0)) = sh # rest
        \<and> find_one (tracking sh) (sys_db (run evs (init db0))) = Some d
        \<and> on_hold d = Some True
      \<longrightarrow> map time_in_step (sys_db (step (TickStep days now fault) (run evs (init db0))))
             = map time_in_step (sys_db (run evs (init db0)))
          \<and> map current_step_index (sys_db (step (TickStep days now fault) (run evs (init db0))))
             = map current_step_index (sys_db (run evs (init db0))))
   \<and> (distinct (map tracking (sys_db (run evs (init db0))))
        \<and> find_one t (sys_db (run evs (init db0))) = Some d
        \<and> find_one t (sys_db (step (TickStep days now fault) (run evs (init db0)))) = Some d2
        \<and> on_hold d2 = Some True
      \<longrightarrow> time_in_step d2 = time_in_step d \<and> current_step_index d2 = current_step_index d)"
proof (intro conjI)
  show "on_hold sh = Some True \<and> process_shipment delta days now fault sh db = Inr (db', sp)
      \<longrightarrow> map time_in_step db' = map time_in_step db
          \<and> map current_step_index db' = map current_step_index db \<and> sp = None"
    using on_hold_step by blast
next
  show "process_shipment delta days now fault sh db = Inr (db', Some r)
      \<longrightarrow> map time_in_step db' = map time_in_step db
          \<and> map current_step_index db' = map current_step_index db"
    using declare_step by blast
next
  show "distinct (map tracking db) \<and> find_one t db = Some d
        \<and> simulation_tick delta env db = (eo, db2, th)
      \<longrightarrow> (\<exists>d'. find_one t db2 = Some d'
             \<and> (on_hold d = Some True \<or> on_hold d' = Some True
                  \<longrightarrow> time_in_step d' = time_in_step d
                      \<and> current_step_index d' = current_step_index d))"
  proof
    assume a: "distinct (map tracking db) \<and> find_one t db = Some d
        \<and> simulation_tick delta env db = (eo, db2, th)"
    then have a1: "distinct (map tracking db)" and a2: "find_one t db = Some d"
      and a3: "simulation_tick delta env db = (eo, db2, th)" by simp_all
    from simulation_tick_docs [OF a1 a3 a2]
    obtain d' where f: "find_one t db2 = Some d'" by blast
    have "on_hold d = Some True \<Longrightarrow> time_in_step d' = time_in_step d
                      \<and> current_step_index d' = current_step_index d"
      using on_hold_tick [OF a1 a2 _ a3] f by auto
    moreover have "on_hold d' = Some True \<Longrightarrow> time_in_step d' = time_in_step d
                      \<and> current_step_index d' = current_step_index d"
      using held_after_tick [OF a1 a2 a3 f] .
    ultimately show "\<exists>d'. find_one t db2 = Some d'
             \<and> (on_hold d = Some True \<or> on_hold d' = Some True
                  \<longrightarrow> time_in_step d' = time_in_step d
                      \<and> current_step_index d' = current_step_index d)"
      using f by blast
  qed
next
  show "distinct (map tracking (sys_db (run evs (init db0))))
        \<and> sys_snapshot (run evs (init db0)) = sh # rest
        \<and> find_one (tracking sh) (sys_db (run evs (init db0))) = Some d
        \<and> on_hold d = Some True
      \<longrightarrow> map time_in_step (sys_db (step (TickStep days now fault) (run evs (init db0))))
             = map time_in_step (sys_db (run evs (init db0)))
          \<and> map current_step_index (sys_db (step (TickStep days now fault) (run evs (init db0))))
             = map current_step_index (sys_db (run evs (init db0)))"
    using on_hold_TickStep by blast
next
  show "distinct (map tracking (sys_db (run evs (init db0))))
        \<and> find_one t (sys_db (run evs (init db0))) = Some d
        \<and> find_one t (sys_db (step (TickStep days now fault) (run evs (init db0)))) = Some d2
        \<and> on_hold d2 = Some True
      \<longrightarrow> time_in_step d2 = time_in_step d \<and> current_step_index d2 = current_step_index d"
    using held_after_TickStep by blast
qed

theorem on_hold_no_progress_witness:
  "distinct (map tracking [held_shipment])
   \<and> find_one ''12345678'' [held_shipment] = Some held_shipment
   \<and> on_hold held_shipment = Some True
   \<and> simulation_tick 1 (\<lambda>i. \<lparr>o_days = 3, o_now = ''Mon Jan  6 10:00:18 2025'', o_fault = False\<rparr>)
        [held_shipment] = (None, [held_shipment], [])
   \<and> distinct (map tracking [transit_shipment])
   \<and> find_one ''12345678'' [transit_shipment] = Some transit_shipment
   \<and> on_hold transit_shipment = Some False
   \<and> simulation_tick 1 sound_env [transit_shipment]
        = (None, [held_shipment], [(''12345678'', 5)])
   \<and> time_in_step held_shipment = time_in_step transit_shipment
   \<and> current_step_index held_shipment = current_step_index transit_shipment"
proof -
  have a: "on_hold held_shipment = Some True" by (simp add: held_shipment_def)
  have b: "distinct (map tracking [held_shipment])" by simp
  have c: "find_one ''12345678'' [held_shipment] = Some held_shipment"
    by (simp add: held_shipment_def)
  have d: "simulation_tick 1
             (\<lambda>i. \<lparr>o_days = 3, o_now = ''Mon Jan  6 10:00:18 2025'', o_fault = False\<rparr>)
             [held_shipment] = (None, [held_shipment], [])"
    by code_simp
  have e: "distinct (map tracking [transit_shipment])" by simp
  have f: "find_one ''12345678'' [transit_shipment] = Some transit_shipment"
    by (simp add: transit_shipment_def)
  have g: "simulation_tick 1 sound_env [transit_shipment]
             = (None, [held_shipment], [(''12345678'', 5)])"
    by code_simp
  have h: "on_hold transit_shipment = Some False" by (simp add: transit_shipment_def)
  have "\<exists>d'. find_one ''12345678'' [held_shipment] = Some d'
          \<and> (on_hold transit_shipment = Some True \<or> on_hold d' = Some True
               \<longrightarrow> time_in_step d' = time_in_step transit_shipment
                   \<and> current_step_index d' = current_step_index transit_shipment)"
    using on_hold_no_progress [THEN conjunct2, THEN conjunct2, THEN conjunct1, rule_format,
        OF conjI [OF e conjI [OF f g]]] .
  then have "time_in_step held_shipment = time_in_step transit_shipment
           \<and> current_step_index held_shipment = current_step_index transit_shipment"
    using a c by simp
  then show ?thesis using a b c d e f g h by blast
qed

text \<open>
  Claim C4, as stated, fails when two shipments carry one tracking id, which the factory
  does not exclude. From the empty collection: after \<open>second_order_run\<close> the first shipment
  is on hold in transit with \<open>time_in_step\<close> 0, the second is new, with the same id, and no
  tick is under way. The next tick reads both; its iteration on the second document writes
  \<open>time_in_step\<close> 1 to the first document with the id, which is the shipment on hold.
\<close>

theorem held_shipment_gains_time_on_id_collision:
  "map (\<lambda>d. (tracking d, on_hold d, current_step_index d, time_in_step d))
       (sys_db (run second_order_run (init [])))
     = [(''12345678'', Some True, 3, 0), (''12345678'', Some False, 0, 0)]
   \<and> sys_snapshot (run second_order_run (init [])) = []
   \<and> map (\<lambda>d. (tracking d, on_hold d, current_step_index d, time_in_step d))
       (sys_db (run collision_run (init [])))
     = [(''12345678'', Some True, 3, 1), (''12345678'', Some False, 0, 0)]
   \<and> map (\<lambda>d. (tracking d, on_hold d, current_step_index d, time_in_step d))
       (fst (snd (simulation_tick 1 sound_env (sys_db (run second_order_run (init []))))))
     = [(''12345678'', Some True, 3, 1), (''12345678'', Some False, 0, 0)]"
  by code_simp

subsection \<open>Time in the stage while on hold\<close>

lemma db_timed_update:
  assumes "db_timed db" and "\<And>d. tracking (g d) = tracking d"
    and "\<And>d. find_one t db = Some d \<Longrightarrow> doc_ok d \<Longrightarrow> doc_ok (g d)"
  shows "db_timed (update_first t g db)"
  using assms unfolding db_timed_def
  by (auto simp: find_one_update_first [OF assms(2)] split: if_splits)

lemma handle_incident_timed:
  assumes "db_timed db" and "handle_incident t days draw now fault db = Inr db'"
  shows "db_timed db'"
proof -
  consider (same) "db' = db"
    | (cancel) "db' = update_first t
                   (\<lambda>d. d\<lparr>status := status_cancelled, finished := True,
                           history := history d @ [(status_cancelled, now)]\<rparr>) db"
    | (resume) "db' = update_first t
                   (\<lambda>d. d\<lparr>status := ''En transit'',
                           history := history d @ [(''En transit'', now)],
                           on_hold := None\<rparr>) db"
    using assms(2)
    by (auto simp: handle_incident_def update_one_def Let_def split: option.splits if_splits)
  then show ?thesis
  proof cases
    case same
    then show ?thesis using assms(1) by simp
  next
    case cancel
    show ?thesis unfolding cancel
      by (rule db_timed_update [OF assms(1)]) (simp_all add: doc_ok_def)
  next
    case resume
    show ?thesis unfolding resume
      by (rule db_timed_update [OF assms(1)]) (simp_all add: doc_ok_def)
  qed
qed

lemma archive_shipment_timed:
  assumes "db_timed db" and "archive_shipment t fault db = Inr (c, db')"
  shows "db_timed db'"
proof -
  have "db' = db \<or> db' = update_first t (\<lambda>d. d\<lparr>archived := True\<rparr>) db"
    using assms(2)
    by (auto simp: archive_shipment_def update_one_def split: option.splits if_splits)
  then show ?thesis
  proof
    assume "db' = db"
    then show ?thesis using assms(1) by simp
  next
    assume u: "db' = update_first t (\<lambda>d. d\<lparr>archived := True\<rparr>) db"
    show ?thesis unfolding u
      by (rule db_timed_update [OF assms(1)]) (simp_all add: doc_ok_def)
  qed
qed

lemma generate_tracking_for_timed:
  assumes "db_timed db" and "generate_tracking_for u q dst dr now fault db = Inr (t, db')"
  shows "db_timed db'"
  using assms unfolding db_timed_def
  by (auto simp: generate_tracking_for_def insert_one_def Let_def find_one_append doc_ok_def
           split: option.splits if_splits)

lemma process_shipment_timed:
  assumes "db_timed db" and "find_one (tracking sh) db = Some d" and "agrees sh d"
    and "process_shipment delta days now fault sh db = Inr (db', sp)"
  shows "db_timed db'"
  using assms(4)
proof (cases rule: process_shipment_cases)
  case finish
  show ?thesis unfolding finish
    by (rule db_timed_update [OF assms(1)]) (simp_all add: doc_ok_def)
next
  case skip
  then show ?thesis using assms(1) by simp
next
  case (incident dur)
  have "doc_ok d" using assms(1,2) by (auto simp: db_timed_def)
  then have "time_in_step d = 0"
    using assms(3) incident by (simp add: doc_ok_def agrees_def)
  then show ?thesis unfolding incident(7)
    using assms(2) by (intro db_timed_update [OF assms(1)]) (simp_all add: doc_ok_def)
next
  case (advance new_status dur)
  show ?thesis unfolding advance(8)
    by (rule db_timed_update [OF assms(1)]) (simp_all add: doc_ok_def)
next
  case (wait dur)
  have "\<not> (current_step_index d = 3 \<and> \<not> incident_checked d \<and> incident_decision d)"
    and "on_hold d \<noteq> Some True"
    using assms(3) wait by (auto simp: agrees_def)
  then show ?thesis unfolding wait(7)
    using assms(2) by (intro db_timed_update [OF assms(1)]) (auto simp: doc_ok_def)
qed

lemma step_timed:
  assumes "inv s" and "db_timed (sys_db s)"
  shows "db_timed (sys_db (step e s))"
proof (cases e)
  case (Create u q dst dr now fault)
  then show ?thesis
    using assms(2) generate_tracking_for_timed by (auto split: sum.splits)
next
  case (Archive t fault)
  then show ?thesis
    using assms(2) archive_shipment_timed by (auto split: sum.splits)
next
  case (TickRead d)
  then show ?thesis using assms(2) by simp
next
  case (TickStep days now fault)
  show ?thesis
  proof (cases "sys_snapshot s")
    case Nil
    then show ?thesis using TickStep assms(2) by simp
  next
    case (Cons sh rest)
    obtain d where d: "find_one (tracking sh) (sys_db s) = Some d" "agrees sh d"
      using assms(1) Cons by (auto simp: inv_def)
    show ?thesis
      using TickStep Cons assms(2) process_shipment_timed [OF assms(2) d]
      by (auto split: sum.splits)
  qed
next
  case (Resolve k draw now fault)
  then show ?thesis
    using assms(2) handle_incident_timed by (auto simp: Let_def split: sum.splits)
qed

lemma run_timed:
  assumes "db_timed db0"
  shows "distinct (map tracking (sys_db (run evs (init db0)))) \<Longrightarrow>
           db_timed (sys_db (run evs (init db0)))"
proof (induction evs rule: rev_induct)
  case Nil
  then show ?case using assms by (simp add: run_Nil init_def)
next
  case (snoc e evs)
  have d: "distinct (map tracking (sys_db (run evs (init db0))))"
    using snoc.prems step_distinct by (simp add: run_snoc)
  have i: "inv (run evs (init db0))" using inv_run [OF inv_init d] .
  from step_timed [OF i snoc.IH [OF d]] show ?case by (simp add: run_snoc)
qed


subsection \<open>Completion of a resolver\<close>

lemma handle_incident_effect:
  assumes "find_one t db = Some sh"
  shows "\<exists>db'. handle_incident t days draw now False db = Inr db'
           \<and> find_one t db'
               = Some (if draw \<le> min (10 + (days - 1) * 5) 100
                       then sh\<lparr>status := status_cancelled, finished := True,
                               history := history sh @ [(status_cancelled, now)]\<rparr>
                       else sh\<lparr>status := ''En transit'',
                               history := history sh @ [(''En transit'', now)],
                               on_hold := None\<rparr>)"
  using assms
  by (simp add: handle_incident_def update_one_def Let_def find_one_update_first)

lemma completion_in_run:
  assumes "db_timed db0"
    and "distinct (map tracking (sys_db (run evs (init db0))))"
    and "k < length (sys_resolvers (run evs (init db0)))"
    and "sys_resolvers (run evs (init db0)) ! k = (trk, days)"
  shows "\<exists>sh sh'. find_one trk (sys_db (run evs (init db0))) = Some sh
           \<and> on_hold sh = Some True \<and> current_step_index sh = 3 \<and> time_in_step sh = 0
           \<and> find_one trk (sys_db (step (Resolve k draw now False) (run evs (init db0))))
               = Some sh'
           \<and> (draw \<le> min (10 + (days - 1) * 5) 100 \<longrightarrow>
                 status sh' = status_cancelled \<and> finished sh'
                 \<and> history sh' = history sh @ [(status_cancelled, now)]
                 \<and> on_hold sh' = on_hold sh)
           \<and> (\<not> draw \<le> min (10 + (days - 1) * 5) 100 \<longrightarrow>
                 status sh' = ''En transit'' \<and> on_hold sh' = None
                 \<and> history sh' = history sh @ [(''En transit'', now)]
                 \<and> finished sh' = finished sh)
           \<and> current_step_index sh' = 3 \<and> time_in_step sh' = 0 \<and> incident_checked sh'"
proof -
  let ?s = "run evs (init db0)"
  have i: "inv ?s" using inv_run [OF inv_init assms(2)] .
  have t: "db_timed (sys_db ?s)" using run_timed [OF assms(1,2)] .
  have "(trk, days) \<in> set (sys_resolvers ?s)"
    using assms(3,4) nth_mem by fastforce
  then obtain sh where f: "find_one trk (sys_db ?s) = Some sh" and h: "held sh"
    using i by (fastforce simp: inv_def)
  have "doc_ok sh" using t f by (auto simp: db_timed_def)
  then have z: "time_in_step sh = 0" using h by (simp add: doc_ok_def held_def)
  from handle_incident_effect [OF f, of days draw now]
  obtain db' where r: "handle_incident trk days draw now False (sys_db ?s) = Inr db'"
    and f': "find_one trk db'
               = Some (if draw \<le> min (10 + (days - 1) * 5) 100
                       then sh\<lparr>status := status_cancelled, finished := True,
                               history := history sh @ [(status_cancelled, now)]\<rparr>
                       else sh\<lparr>status := ''En transit'',
                               history := history sh @ [(''En transit'', now)],
                               on_hold := None\<rparr>)"
    by blast
  have "sys_db (step (Resolve k draw now False) ?s) = db'"
    using assms(3,4) r by (simp add: Let_def)
  then show ?thesis
    using f f' h z by (auto simp: held_def)
qed

lemma handle_incident_fields:
  assumes "find_one t db = Some sh"
  shows "\<exists>db' sh'. handle_incident t days draw now False db = Inr db'
           \<and> find_one t db' = Some sh'
           \<and> (draw \<le> min (10 + (days - 1) * 5) 100 \<longrightarrow>
                 status sh' = status_cancelled \<and> finished sh'
                 \<and> history sh' = history sh @ [(status_cancelled, now)]
                 \<and> on_hold sh' = on_hold sh)
           \<and> (\<not> draw \<le> min (10 + (days - 1) * 5) 100 \<longrightarrow>
                 status sh' = ''En transit'' \<and> on_hold sh' = None
                 \<and> history sh' = history sh @ [(''En transit'', now)]
                 \<and> finished sh' = finished sh)
           \<and> current_step_index sh' = current_step_index sh
           \<and> time_in_step sh' = time_in_step sh"
  using handle_incident_effect [OF assms, of days draw now] by auto

lemma resumed_next_tick:
  assumes "distinct (map tracking db)" and "find_one t db = Some sh"
    and "current_step_index sh = 3" and "time_in_step sh = 0" and "on_hold sh = None"
    and "incident_checked sh" and "\<not> finished sh" and "\<not> archived sh"
    and "simulation_tick delta env db = (None, db2, th)"
  shows "\<exists>d2 dur. find_one t db2 = Some d2 \<and> py_index (step_durations sh) 3 = Inr dur
           \<and> (delta < of_int dur \<longrightarrow> current_step_index d2 = 3 \<and> time_in_step d2 = delta)
           \<and> (of_int dur \<le> delta \<longrightarrow> current_step_index d2 = 4 \<and> time_in_step d2 = 0)"
proof -
  from simulation_tick_docs [OF assms(1) assms(9) assms(2)] assms(7,8)
  obtain d2 days now fault sp where f: "find_one t db2 = Some d2"
    and p: "process_shipment delta days now fault sh [sh] = Inr ([d2], sp)"
    by auto
  from p show ?thesis
  proof (cases rule: process_shipment_cases)
    case finish
    then show ?thesis using assms(3) by simp
  next
    case skip
    then show ?thesis using assms(5) by simp
  next
    case (incident dur)
    then show ?thesis using assms(6) by simp
  next
    case (advance new_status dur)
    then show ?thesis using f assms(3,4) by (auto simp: not_less)
  next
    case (wait dur)
    then show ?thesis using f assms(3,4) by (auto simp: not_le)
  qed
qed

text \<open>
  Claim C7, as amended: for collections whose tracking ids are distinct. First, with no
  condition: a resolver that completes without a write fault on a shipment that exists
  gives it, if the draw is at most the chance, the cancelled status, \<open>finished\<close> and one more
  history entry, and leaves \<open>on_hold\<close> as it was; otherwise it gives it the status
  "En transit", removes \<open>on_hold\<close>, adds one history entry and leaves \<open>finished\<close>;
  \<open>current_step_index\<close> and \<open>time_in_step\<close> are not written. Second: in a run with distinct
  tracking ids, from a collection in which no shipment on hold, and none waiting in transit
  for its incident, has accumulated time (the empty collection, or any collection such a
  run has left), the shipment of a sleeping resolver is on hold at stage 3 with
  \<open>time_in_step\<close> 0 when the resolver completes, however many ticks passed meanwhile, and it
  is at stage 3 with \<open>time_in_step\<close> 0 after the completion. Third: the tick that follows on
  a shipment so resumed counts from 0: it leaves the shipment at stage 3 with the tick's
  elapsed time as \<open>time_in_step\<close>, or moves it to stage 4 when that time already reaches
  the duration of the transit stage.
\<close>

theorem resolver_completion:
  "(find_one trk db = Some sh \<longrightarrow>
      (\<exists>db' sh'. handle_incident trk days draw now False db = Inr db'
           \<and> find_one trk db' = Some sh'
           \<and> (draw \<le> min (10 + (days - 1) * 5) 100 \<longrightarrow>
                 status sh' = status_cancelled \<and> finished sh'
                 \<and> history sh' = history sh @ [(status_cancelled, now)]
                 \<and> on_hold sh' = on_hold sh)
           \<and> (\<not> draw \<le> min (10 + (days - 1) * 5) 100 \<longrightarrow>
                 status sh' = ''En transit'' \<and> on_hold sh' = None
                 \<and> history sh' = history sh @ [(''En transit'', now)]
                 \<and> finished sh' = finished sh)
           \<and> current_step_index sh' = current_step_index sh
           \<and> time_in_step sh' = time_in_step sh))
   \<and> (db_timed db0 \<and> distinct (map tracking (sys_db (run evs (init db0))))
        \<and> k < length (sys_resolvers (run evs (init db0)))
        \<and> sys_resolvers (run evs (init db0)) ! k = (trk, days) \<longrightarrow>
      (\<exists>sh sh'. find_one trk (sys_db (run evs (init db0))) = Some sh
           \<and> on_hold sh = Some True \<and> current_step_index sh = 3 \<and> time_in_step sh = 0
           \<and> find_one trk (sys_db (step (Resolve k draw now False) (run evs (init db0))))
               = Some sh'
           \<and> (draw \<le> min (10 + (days - 1) * 5) 100 \<longrightarrow>
                 status sh' = status_cancelled \<and> finished sh'
                 \<and> history sh' = history sh @ [(status_cancelled, now)]
                 \<and> on_hold sh' = on_hold sh)
           \<and> (\<not> draw \<le> min (10 + (days - 1) * 5) 100 \<longrightarrow>
                 status sh' = ''En transit'' \<and> on_hold sh' = None
                 \<and> history sh' = history sh @ [(''En transit'', now)]
                 \<and> finished sh' = finished sh)
           \<and> current_step_index sh' = 3 \<and> time_in_step sh' = 0 \<and> incident_checked sh'))
   \<and> (distinct (map tracking db) \<and> find_one trk db = Some sh
        \<and> current_step_index sh = 3 \<and> time_in_step sh = 0 \<and> on_hold sh = None
        \<and> incident_checked sh \<and> \<not> finished sh \<and> \<not> archived sh
        \<and> simulation_tick delta env db = (None, db2, th) \<longrightarrow>
      (\<exists>d2 dur. find_one trk db2 = Some d2 \<and> py_index (step_durations sh) 3 = Inr dur
           \<and> (delta < of_int dur \<longrightarrow> current_step_index d2 = 3 \<and> time_in_step d2 = delta)
           \<and> (of_int dur \<le> delta \<longrightarrow> current_step_index d2 = 4 \<and> time_in_step d2 = 0)))"
proof (intro conjI)
  show "find_one trk db = Some sh \<longrightarrow>
      (\<exists>db' sh'. handle_incident trk days draw now False db = Inr db'
           \<and> find_one trk db' = Some sh'
           \<and> (draw \<le> min (10 + (days - 1) * 5) 100 \<longrightarrow>
                 status sh' = status_cancelled \<and> finished sh'
                 \<and> history sh' = history sh @ [(status_cancelled, now)]
                 \<and> on_hold sh' = on_hold sh)
           \<and> (\<not> draw \<le> min (10 + (days - 1) * 5) 100 \<longrightarrow>
                 status sh' = ''En transit'' \<and> on_hold sh' = None
                 \<and> history sh' = history sh @ [(''En transit'', now)]
                 \<and> finished sh' = finished sh)
           \<and> current_step_index sh' = current_step_index sh
           \<and> time_in_step sh' = time_in_step sh)"
    using handle_incident_fields by blast
next
  show "db_timed db0 \<and> distinct (map tracking (sys_db (run evs (init db0))))
        \<and> k < length (sys_resolvers (run evs (init db0)))
        \<and> sys_resolvers (run evs (init db0)) ! k = (trk, days) \<longrightarrow>
      (\<exists>sh sh'. find_one trk (sys_db (run evs (init db0))) = Some sh
           \<and> on_hold sh = Some True \<and> current_step_index sh = 3 \<and> time_in_step sh = 0
           \<and> find_one trk (sys_db (step (Resolve k draw now False) (run evs (init db0))))
               = Some sh'
           \<and> (draw \<le> min (10 + (days - 1) * 5) 100 \<longrightarrow>
                 status sh' = status_cancelled \<and> finished sh'
                 \<and> history sh' = history sh @ [(status_cancelled, now)]
                 \<and> on_hold sh' = on_hold sh)
           \<and> (\<not> draw \<le> min (10 + (days - 1) * 5) 100 \<longrightarrow>
                 status sh' = ''En transit'' \<and> on_hold sh' = None
                 \<and> history sh' = history sh @ [(''En transit'', now)]
                 \<and> finished sh' = finished sh)
           \<and> current_step_index sh' = 3 \<and> time_in_step sh' = 0 \<and> incident_checked sh')"
    using completion_in_run by blast
next
  show "distinct (map tracking db) \<and> find_one trk db = Some sh
        \<and> current_step_index sh = 3 \<and> time_in_step sh = 0 \<and> on_hold sh = None
        \<and> incident_checked sh \<and> \<not> finished sh \<and> \<not> archived sh
        \<and> simulation_tick delta env db = (None, db2, th) \<longrightarrow>
      (\<exists>d2 dur. find_one trk db2 = Some d2 \<and> py_index (step_durations sh) 3 = Inr dur
           \<and> (delta < of_int dur \<longrightarrow> current_step_index d2 = 3 \<and> time_in_step d2 = delta)
           \<and> (of_int dur \<le> delta \<longrightarrow> current_step_index d2 = 4 \<and> time_in_step d2 = 0))"
    using resumed_next_tick by blast
qed

theorem resolver_completion_witness:
  "db_timed [transit_shipment]
   \<and> distinct (map tracking (sys_db (run (take 3 incident_run) (init [transit_shipment]))))
   \<and> 0 < length (sys_resolvers (run (take 3 incident_run) (init [transit_shipment])))
   \<and> sys_resolvers (run (take 3 incident_run) (init [transit_shipment])) ! 0 = (''12345678'', 5)
   \<and> (\<exists>sh sh'. find_one ''12345678'' (sys_db (run (take 3 incident_run) (init [transit_shipment])))
                  = Some sh
          \<and> on_hold sh = Some True
          \<and> find_one ''12345678''
               (sys_db (step (Resolve 0 80 ''Mon Jan  6 10:00:42 2025'' False)
                         (run (take 3 incident_run) (init [transit_shipment])))) = Some sh'
          \<and> status sh' = ''En transit'' \<and> on_hold sh' = None
          \<and> current_step_index sh' = 3 \<and> time_in_step sh' = 0 \<and> incident_checked sh')
   \<and> distinct (map tracking (sys_db (run (take 4 incident_run) (init [transit_shipment]))))
   \<and> find_one ''12345678'' (sys_db (run (take 4 incident_run) (init [transit_shipment])))
       = Some (hd (sys_db (run (take 4 incident_run) (init [transit_shipment]))))
   \<and> on_hold (hd (sys_db (run (take 4 incident_run) (init [transit_shipment])))) = None
   \<and> fst (simulation_tick 1 sound_env (sys_db (run (take 4 incident_run) (init [transit_shipment]))))
       = None
   \<and> (\<exists>d2 dur. find_one ''12345678''
                   (fst (snd (simulation_tick 1 sound_env
                                (sys_db (run (take 4 incident_run) (init [transit_shipment]))))))
                  = Some d2
          \<and> py_index (step_durations
                         (hd (sys_db (run (take 4 incident_run) (init [transit_shipment]))))) 3
              = Inr dur
          \<and> (1 < (of_int dur :: rat) \<longrightarrow> current_step_index d2 = 3 \<and> time_in_step d2 = 1)
          \<and> ((of_int dur :: rat) \<le> 1 \<longrightarrow> current_step_index d2 = 4 \<and> time_in_step d2 = 0))"
proof -
  have a: "db_timed [transit_shipment]"
    by (auto simp: db_timed_def doc_ok_def transit_shipment_def split: if_splits)
  have b: "distinct (map tracking (sys_db (run (take 3 incident_run) (init [transit_shipment]))))"
    by code_simp
  have c: "0 < length (sys_resolvers (run (take 3 incident_run) (init [transit_shipment])))"
    by code_simp
  have d: "sys_resolvers (run (take 3 incident_run) (init [transit_shipment])) ! 0
             = (''12345678'', 5)"
    by code_simp
  have e: "\<not> (80::int) \<le> min (10 + (5 - 1) * 5) 100" by simp
  from resolver_completion [THEN conjunct2, THEN conjunct1, rule_format,
      OF conjI [OF a conjI [OF b conjI [OF c d]]],
      of 80 "''Mon Jan  6 10:00:42 2025''"] e
  have first: "\<exists>sh sh'. find_one ''12345678''
                   (sys_db (run (take 3 incident_run) (init [transit_shipment]))) = Some sh
          \<and> on_hold sh = Some True
          \<and> find_one ''12345678''
               (sys_db (step (Resolve 0 80 ''Mon Jan  6 10:00:42 2025'' False)
                         (run (take 3 incident_run) (init [transit_shipment])))) = Some sh'
          \<and> status sh' = ''En transit'' \<and> on_hold sh' = None
          \<and> current_step_index sh' = 3 \<and> time_in_step sh' = 0 \<and> incident_checked sh'"
    by blast
  let ?db = "sys_db (run (take 4 incident_run) (init [transit_shipment]))"
  have f1: "distinct (map tracking ?db)" by code_simp
  have f2: "find_one ''12345678'' ?db = Some (hd ?db)" by code_simp
  have f3: "current_step_index (hd ?db) = 3" by code_simp
  have f4: "time_in_step (hd ?db) = 0" by code_simp
  have f5: "on_hold (hd ?db) = None" by code_simp
  have f6: "incident_checked (hd ?db)" by code_simp
  have f7: "\<not> finished (hd ?db)" by code_simp
  have f8: "\<not> archived (hd ?db)" by code_simp
  have f9: "fst (simulation_tick 1 sound_env ?db) = None" by code_simp
  then have f10: "simulation_tick 1 sound_env ?db
                    = (None, fst (snd (simulation_tick 1 sound_env ?db)),
                       snd (snd (simulation_tick 1 sound_env ?db)))"
    by (metis prod.collapse)
  note second = resolver_completion [THEN conjunct2, THEN conjunct2, rule_format,
      OF conjI [OF f1 conjI [OF f2 conjI [OF f3 conjI [OF f4 conjI [OF f5 conjI [OF f6
           conjI [OF f7 conjI [OF f8 f10]]]]]]]]]
  show ?thesis using a b c d first f1 f2 f5 f9 second by blast
qed

text \<open>
  Claim C7, as stated, fails when two shipments carry one tracking id. From the empty
  collection, after \<open>collision_run\<close>: the first shipment is on hold at stage 3, its resolver
  sleeps, and the tick's iteration on the second document has written \<open>time_in_step\<close> 1 to
  it. The resolver then resumes it: the shipment is back in transit at stage 3 with
  \<open>time_in_step\<close> 1, time that passed while it was on hold.
\<close>

theorem resumed_shipment_keeps_time_gained_on_hold:
  "sys_resolvers (run collision_run (init [])) = [(''12345678'', 5)]
   \<and> map (\<lambda>d. (tracking d, on_hold d, current_step_index d, time_in_step d))
       (sys_db (run collision_run (init [])))
     = [(''12345678'', Some True, 3, 1), (''12345678'', Some False, 0, 0)]
   \<and> map (\<lambda>d. (tracking d, on_hold d, current_step_index d, time_in_step d))
       (sys_db (run collision_resume_run (init [])))
     = [(''12345678'', None, 3, 1), (''12345678'', Some False, 0, 0)]
   \<and> status (hd (sys_db (run collision_resume_run (init [])))) = ''En transit''"
  by code_simp

subsection \<open>The scheduler and the resolver on one shipment\<close>

text \<open>
  Claim C2. The module declares one lock for the concurrency on the collection, and
  \<open>handle_incident\<close> holds it around its \<open>find_one\<close> and its write; \<open>simulation_loop\<close> never
  takes it. So the scheduler's read of a shipment, its decision and its write are not
  exclusive against a resolver on the same tracking id. On the collection that holds
  \<open>transit_shipment\<close>, after the first three events of \<open>incident_run\<close> the tick has read the
  shipment (on hold) and not yet come to its iteration, and the shipment's resolver is
  sleeping. The fourth event is the resolver's locked section: it removes \<open>on_hold\<close> from the
  stored document between the tick's read and the tick's iteration, and the copy the tick
  decides on still says on hold.
\<close>

theorem resolver_write_between_read_and_iteration:
  "map tracking (sys_snapshot (run (take 3 incident_run) (init [transit_shipment])))
     = [''12345678'']
   \<and> sys_resolvers (run (take 3 incident_run) (init [transit_shipment])) = [(''12345678'', 5)]
   \<and> map on_hold (sys_db (run (take 3 incident_run) (init [transit_shipment]))) = [Some True]
   \<and> map on_hold (sys_db (run (take 4 incident_run) (init [transit_shipment]))) = [None]
   \<and> map on_hold (sys_snapshot (run (take 4 incident_run) (init [transit_shipment])))
     = [Some True]"
  by code_simp


subsection \<open>A shipment without incident\<close>


















subsection \<open>A failure in a tick\<close>

lemma process_all_append:
  "process_all delta env i (xs @ zs) db th
     = (case process_all delta env i xs db th of
          (Some e, db1, th1) \<Rightarrow> (Some e, db1, th1)
        | (None, db1, th1) \<Rightarrow> process_all delta env (i + length xs) zs db1 th1)"
proof (induction xs arbitrary: i db th)
  case Nil
  then show ?case by simp
next
  case (Cons x xs)
  then show ?case by (simp split: sum.splits prod.splits option.splits)
qed

lemma simulation_loop_stays_failed:
  "simulation_loop n deltas envs db = Inl e \<Longrightarrow> simulation_loop (n + k) deltas envs db = Inl e"
  by (induction k) simp_all

text \<open>
  Claim C8, as amended. A failure while the tick processes one shipment is not isolated.
  When the iterations on the shipments \<open>xs\<close> succeed and the iteration on the next
  shipment \<open>sh\<close> raises, the tick ends there with the error: the shipments \<open>ys\<close> read after
  \<open>sh\<close> are not processed, the collection keeps what the iterations on \<open>xs\<close> wrote, and the
  scheduler's loop has ended with that error, also at every later tick.
\<close>

theorem tick_failure_ends_tick:
  assumes "find_active db = xs @ sh # ys"
    and "process_all (deltas 0) (envs 0) 0 xs db [] = (None, db1, th1)"
    and "process_shipment (deltas 0) (o_days (envs 0 (length xs))) (o_now (envs 0 (length xs)))
           (o_fault (envs 0 (length xs))) sh db1 = Inl e"
  shows "simulation_tick (deltas 0) (envs 0) db = (Some e, db1, th1)
       \<and> simulation_loop (Suc n) deltas envs db = Inl e"
proof -
  have t: "simulation_tick (deltas 0) (envs 0) db = (Some e, db1, th1)"
    using assms by (simp add: simulation_tick_def process_all_append)
  then have "simulation_loop (Suc 0) deltas envs db = Inl e" by simp
  from simulation_loop_stays_failed [OF this, of n] show ?thesis using t by simp
qed

theorem tick_failure_ends_tick_witness:
  "find_active [transit_shipment, order_shipment] = [transit_shipment] @ order_shipment # []
   \<and> process_all 1 second_fails_env 0 [transit_shipment] [transit_shipment, order_shipment] []
       = (None, fst (snd (simulation_tick 1 second_fails_env [transit_shipment, order_shipment])),
          [(''12345678'', 5)])
   \<and> process_shipment 1 (o_days (second_fails_env (length [transit_shipment])))
        (o_now (second_fails_env (length [transit_shipment])))
        (o_fault (second_fails_env (length [transit_shipment]))) order_shipment
        (fst (snd (simulation_tick 1 second_fails_env [transit_shipment, order_shipment])))
       = Inl StoreFailure
   \<and> simulation_loop (Suc 3) (\<lambda>k. 1) (\<lambda>k. second_fails_env) [transit_shipment, order_shipment]
       = Inl StoreFailure
   \<and> map on_hold (fst (snd (simulation_tick 1 second_fails_env [transit_shipment, order_shipment])))
       = [Some True, Some False]"
proof -
  have a: "find_active [transit_shipment, order_shipment]
             = [transit_shipment] @ order_shipment # []"
    by code_simp
  have b: "process_all 1 second_fails_env 0 [transit_shipment] [transit_shipment, order_shipment] []
       = (None, fst (snd (simulation_tick 1 second_fails_env [transit_shipment, order_shipment])),
          [(''12345678'', 5)])"
    by code_simp
  have c: "process_shipment 1 (o_days (second_fails_env (length [transit_shipment])))
        (o_now (second_fails_env (length [transit_shipment])))
        (o_fault (second_fails_env (length [transit_shipment]))) order_shipment
        (fst (snd (simulation_tick 1 second_fails_env [transit_shipment, order_shipment])))
       = Inl StoreFailure"
    by code_simp
  have d: "map on_hold (fst (snd (simulation_tick 1 second_fails_env
             [transit_shipment, order_shipment]))) = [Some True, Some False]"
    by code_simp
  from tick_failure_ends_tick [of "[transit_shipment, order_shipment]" "[transit_shipment]"
      order_shipment "[]" "\<lambda>k. 1" "\<lambda>k. second_fails_env", OF a b c, of 3]
  show ?thesis using a b c d by simp
qed

text \<open>
  Claim C8, as stated, fails: when the write for the first of two shipments fails, the tick
  returns the error and the collection unchanged, the second shipment included; with no
  failure the same tick gives the second shipment its time.
\<close>

theorem tick_failure_not_isolated:
  "simulation_tick 1 first_fails_env [transit_shipment, order_shipment]
     = (Some StoreFailure, [transit_shipment, order_shipment], [])
   \<and> map time_in_step (fst (snd (simulation_tick 1 sound_env [transit_shipment, order_shipment])))
     = [0, 1]"
  by code_simp

end
